theory Spec2Isabelle
  imports Complex_Main "HOL-Library.AList"
begin

section \<open>Python strings\<close>

text \<open>
  A Python \<open>str\<close> is a sequence of Unicode code points; a code point is a natural number.
  \<open>ustr\<close> turns an Isabelle string literal into such a sequence.
\<close>

type_synonym pystr = "nat list"

definition ustr :: "string \<Rightarrow> pystr" where
  "ustr s = map of_char s"

text \<open>The characters \<open>str.strip()\<close> and \<open>str.split()\<close> treat as whitespace.\<close>

definition is_space :: "nat \<Rightarrow> bool" where
  "is_space c \<longleftrightarrow>
     (9 \<le> c \<and> c \<le> 13) \<or> (28 \<le> c \<and> c \<le> 32) \<or> c = 133 \<or> c = 160 \<or> c = 5760 \<or>
     (8192 \<le> c \<and> c \<le> 8202) \<or> c = 8232 \<or> c = 8233 \<or> c = 8239 \<or> c = 8287 \<or> c = 12288"

definition strip :: "pystr \<Rightarrow> pystr" where
  "strip s = rev (dropWhile is_space (rev (dropWhile is_space s)))"

text \<open>
  \<open>s[i:j]\<close> for integers \<open>i\<close>, \<open>j\<close>: a negative index counts from the end, and both
  are clamped to the range of the sequence.
\<close>

definition slice_index :: "nat \<Rightarrow> int \<Rightarrow> nat" where
  "slice_index n i = (if i < 0 then nat (max (i + int n) 0) else min (nat i) n)"

definition py_slice :: "'a list \<Rightarrow> int \<Rightarrow> int \<Rightarrow> 'a list" where
  "py_slice xs i j =
     (let a = slice_index (length xs) i; b = slice_index (length xs) j
      in take (b - a) (drop a xs))"


text \<open>\<open>s.startswith(p)\<close>, \<open>sep.join(xs)\<close>, \<open>s.split()\<close> and \<open>str(n)\<close> for a natural number.\<close>

definition starts_with :: "pystr \<Rightarrow> pystr \<Rightarrow> bool" where
  "starts_with s p \<longleftrightarrow> take (length p) s = p"

fun join :: "pystr \<Rightarrow> pystr list \<Rightarrow> pystr" where
  "join sep [] = []"
| "join sep [x] = x"
| "join sep (x # y # ys) = x @ sep @ join sep (y # ys)"

primrec split_from :: "pystr \<Rightarrow> pystr \<Rightarrow> pystr list" where
  "split_from w [] = (if w = [] then [] else [w])"
| "split_from w (c # cs) =
     (if is_space c then (if w = [] then split_from [] cs else w # split_from [] cs)
      else split_from (w @ [c]) cs)"

definition split_ws :: "pystr \<Rightarrow> pystr list" where
  "split_ws s = split_from [] s"

fun digits :: "nat \<Rightarrow> pystr" where
  "digits n = (if n < 10 then [48 + n] else digits (n div 10) @ [48 + n mod 10])"

declare digits.simps [simp del]

section \<open>JSON values and Python's dynamic checks\<close>

text \<open>
  What \<open>json.loads\<close> returns: \<open>None\<close>, a bool, an int, a float, a str, a list or a dict
  with string keys (an association list in insertion order).
\<close>

datatype json =
    JNull
  | JBool bool
  | JInt int
  | JFloat rat
  | JStr pystr
  | JArr "json list"
  | JObj "(pystr \<times> json) list"

type_synonym pydict = "(pystr \<times> json) list"

text \<open>Truth value of a Python object, as \<open>if x\<close>, \<open>not x\<close> and \<open>x or y\<close> test it.\<close>

fun truthy :: "json \<Rightarrow> bool" where
  "truthy JNull = False"
| "truthy (JBool b) = b"
| "truthy (JInt i) = (i \<noteq> 0)"
| "truthy (JFloat q) = (q \<noteq> 0)"
| "truthy (JStr s) = (s \<noteq> [])"
| "truthy (JArr xs) = (xs \<noteq> [])"
| "truthy (JObj kvs) = (kvs \<noteq> [])"

definition py_or :: "json \<Rightarrow> json \<Rightarrow> json" where
  "py_or a b = (if truthy a then a else b)"

text \<open>\<open>d.get(k)\<close> and \<open>d.get(k, default)\<close>.\<close>

definition dict_get :: "pydict \<Rightarrow> pystr \<Rightarrow> json" where
  "dict_get d k = (case map_of d k of None \<Rightarrow> JNull | Some v \<Rightarrow> v)"

definition dict_get_default :: "pydict \<Rightarrow> pystr \<Rightarrow> json \<Rightarrow> json" where
  "dict_get_default d k dflt = (case map_of d k of None \<Rightarrow> dflt | Some v \<Rightarrow> v)"

text \<open>
  \<open>str(x)\<close> and the formatting of \<open>x\<close> inside an f-string: a str is itself, every other
  value is rendered by the interpreter, here the parameter \<open>repr\<close>.
\<close>

definition py_str :: "(json \<Rightarrow> pystr) \<Rightarrow> json \<Rightarrow> pystr" where
  "py_str repr v = (case v of JStr s \<Rightarrow> s | _ \<Rightarrow> repr v)"

text \<open>The exceptions the modelled code can raise; \<open>ServiceError\<close> is a failed call of an external service.\<close>

datatype error =
    AttributeError
  | TypeError
  | KeyError
  | ValueError
  | IndexError
  | JSONDecodeError
  | ServiceError

text \<open>
  A line of a JSONL file, by what the readers make of it: \<open>Blank\<close> is empty after
  \<open>strip()\<close>, \<open>Malformed\<close> makes \<open>json.loads\<close> raise, \<open>Value v\<close> parses to \<open>v\<close>.
  \<open>json.dumps(rec)\<close> followed by a newline writes the line \<open>Value rec\<close>.
\<close>

datatype line = Blank | Malformed | Value json

section \<open>Chunking\<close>

text \<open>
  \<open>chunk_text\<close> of data.py. The \<open>while\<close> loop is the recursion of \<open>data_chunk_loop\<close> on
  \<open>start\<close> and \<open>chunks\<close>; a run that never leaves the loop is the value \<open>None\<close>.
\<close>

partial_function (option) data_chunk_loop ::
  "pystr \<Rightarrow> int \<Rightarrow> int \<Rightarrow> int \<Rightarrow> pystr list \<Rightarrow> pystr list option" where
  "data_chunk_loop text chunk_size overlap start chunks =
     (if start < int (length text) then
        let end = start + chunk_size;
            chunk = strip (py_slice text start end);
            chunks' = (if chunk \<noteq> [] then chunks @ [chunk] else chunks);
            next_start = end - overlap
        in data_chunk_loop text chunk_size overlap
             (if next_start > start then next_start else end) chunks'
      else Some chunks)"

definition data_chunk_text :: "pystr \<Rightarrow> int \<Rightarrow> int \<Rightarrow> pystr list option" where
  "data_chunk_text text chunk_size overlap = data_chunk_loop text chunk_size overlap 0 []"

text \<open>\<open>chunk_text\<close> of webscrape.py, with its \<open>break\<close> when the new start is negative.\<close>

partial_function (option) web_chunk_loop ::
  "pystr \<Rightarrow> int \<Rightarrow> int \<Rightarrow> int \<Rightarrow> pystr list \<Rightarrow> pystr list option" where
  "web_chunk_loop text max_chars overlap start chunks =
     (if start < int (length text) then
        let end = min (start + max_chars) (int (length text));
            chunk = strip (py_slice text start end);
            chunks' = (if chunk \<noteq> [] then chunks @ [chunk] else chunks);
            start' = end - overlap
        in if start' < 0 then Some chunks'
           else web_chunk_loop text max_chars overlap start' chunks'
      else Some chunks)"

definition web_chunk_text :: "pystr \<Rightarrow> int \<Rightarrow> int \<Rightarrow> pystr list option" where
  "web_chunk_text text max_chars overlap = web_chunk_loop text max_chars overlap 0 []"


section \<open>Record identity\<close>

text \<open>\<open>sanitize_id\<close> of IndexingAzureAISearch.py: the regular expression replaces each
  character outside \<open>[A-Za-z0-9_\-=]\<close> by an underscore.\<close>

definition allowed_char :: "nat \<Rightarrow> bool" where
  "allowed_char c \<longleftrightarrow>
     (65 \<le> c \<and> c \<le> 90) \<or> (97 \<le> c \<and> c \<le> 122) \<or> (48 \<le> c \<and> c \<le> 57) \<or>
     c = 95 \<or> c = 45 \<or> c = 61"

definition sanitize_id :: "pystr \<Rightarrow> pystr" where
  "sanitize_id raw =
     (if raw = [] then ustr ''missing_id''
      else let safe = map (\<lambda>c. if allowed_char c then c else 95) raw in take 512 safe)"

section \<open>File records\<close>

text \<open>
  A \<open>pathlib.Path\<close>, by the attributes \<open>make_record\<close> reads: \<open>str(path)\<close>,
  \<open>path.resolve()\<close>, \<open>path.stem\<close>, \<open>path.suffix\<close> and \<open>path.stat().st_size\<close>;
  \<open>path.name\<close> is the stem followed by the suffix.
\<close>

record file_path =
  path_str :: pystr
  resolved :: pystr
  stem :: pystr
  suffix :: pystr
  size_bytes :: int

definition path_name :: "file_path \<Rightarrow> pystr" where
  "path_name p = stem p @ suffix p"

definition is_hidden_or_appledouble :: "file_path \<Rightarrow> bool" where
  "is_hidden_or_appledouble p =
     (if starts_with (path_name p) (ustr ''._'') then True
      else if starts_with (path_name p) (ustr ''.'') then True
      else False)"

text \<open>
  \<open>make_record\<close> of data.py. The parameters are the library functions it calls:
  \<open>lower\<close> is \<open>str.lower\<close>, \<open>sha1\<close> the hex digest of the UTF-8 encoding, and the
  three parsers return the cleaned text of a file. The outer \<open>option\<close> is the return of
  the chunking loop, the inner one Python's \<open>None\<close>.
\<close>

definition file_record :: "(pystr \<Rightarrow> pystr) \<Rightarrow> file_path \<Rightarrow> pystr \<Rightarrow> nat \<Rightarrow> nat \<Rightarrow> pystr \<Rightarrow> json" where
  "file_record sha1 path ext total_chunks i chunk =
     JObj [(ustr ''id'', JStr (stem path @ ustr ''_'' @ digits i)),
           (ustr ''source_type'', JStr ext),
           (ustr ''file_name'', JStr (path_name path)),
           (ustr ''file_type'', JStr ext),
           (ustr ''path'', JStr (path_str path)),
           (ustr ''text'', JStr chunk),
           (ustr ''sha1'', JStr (sha1 (resolved path @ ustr ''::'' @ chunk))),
           (ustr ''meta'', JObj [(ustr ''size_bytes'', JInt (size_bytes path)),
                                 (ustr ''chunk_index'', JInt (int i)),
                                 (ustr ''total_chunks'', JInt (int total_chunks))])]"

definition make_record ::
  "(pystr \<Rightarrow> pystr) \<Rightarrow> (pystr \<Rightarrow> pystr) \<Rightarrow> (file_path \<Rightarrow> pystr) \<Rightarrow> (file_path \<Rightarrow> pystr) \<Rightarrow>
   (file_path \<Rightarrow> pystr) \<Rightarrow> file_path \<Rightarrow> json list option option" where
  "make_record lower sha1 parse_docx parse_pdf parse_excel path =
     (if is_hidden_or_appledouble path then Some None
      else let ext = lower (suffix path) in
        if ext \<noteq> ustr ''.docx'' \<and> ext \<noteq> ustr ''.pdf'' \<and> ext \<noteq> ustr ''.xlsx'' then Some None
        else let text = (if ext = ustr ''.docx'' then parse_docx path
                         else if ext = ustr ''.pdf'' then parse_pdf path
                         else parse_excel path) in
          if text = [] then Some None
          else case data_chunk_text text 1000 100 of
                 None \<Rightarrow> None
               | Some chunks \<Rightarrow>
                   Some (Some (map (\<lambda>(i, chunk). file_record sha1 path ext (length chunks) i chunk)
                                   (enumerate 1 chunks))))"

text \<open>
  \<open>build_corpus\<close> of data.py, from the files found under the data directory to the lines
  written to the corpus file.
\<close>

fun corpus_lines ::
  "(pystr \<Rightarrow> pystr) \<Rightarrow> (pystr \<Rightarrow> pystr) \<Rightarrow> (file_path \<Rightarrow> pystr) \<Rightarrow> (file_path \<Rightarrow> pystr) \<Rightarrow>
   (file_path \<Rightarrow> pystr) \<Rightarrow> file_path list \<Rightarrow> line list option" where
  "corpus_lines lower sha1 parse_docx parse_pdf parse_excel [] = Some []"
| "corpus_lines lower sha1 parse_docx parse_pdf parse_excel (p # ps) =
     (case make_record lower sha1 parse_docx parse_pdf parse_excel p of
        None \<Rightarrow> None
      | Some recs \<Rightarrow>
          (case corpus_lines lower sha1 parse_docx parse_pdf parse_excel ps of
             None \<Rightarrow> None
           | Some rest \<Rightarrow>
               Some ((case recs of None \<Rightarrow> [] | Some rs \<Rightarrow> map Value rs) @ rest)))"

definition build_corpus ::
  "(pystr \<Rightarrow> pystr) \<Rightarrow> (pystr \<Rightarrow> pystr) \<Rightarrow> (file_path \<Rightarrow> pystr) \<Rightarrow> (file_path \<Rightarrow> pystr) \<Rightarrow>
   (file_path \<Rightarrow> pystr) \<Rightarrow> file_path list \<Rightarrow> line list option" where
  "build_corpus lower sha1 parse_docx parse_pdf parse_excel candidates =
     (let files = filter (\<lambda>p. \<not> is_hidden_or_appledouble p \<and>
                               (lower (suffix p) = ustr ''.docx'' \<or> lower (suffix p) = ustr ''.pdf'' \<or>
                                lower (suffix p) = ustr ''.xlsx'')) candidates
      in corpus_lines lower sha1 parse_docx parse_pdf parse_excel files)"

section \<open>Web records\<close>

text \<open>
  The body of the crawl loop of \<open>crawl_website\<close> for one fetched page: the page's text is
  chunked with \<open>max_chars = 2500\<close> and \<open>overlap = 100\<close>, a chunk whose hash was seen is
  skipped, every other one is written. A URL is given by its string and by the
  \<open>netloc\<close> and \<open>path\<close> of \<open>urlsplit\<close>.
\<close>

record url =
  url_str :: pystr
  netloc :: pystr
  url_path :: pystr

definition web_record :: "url \<Rightarrow> nat \<Rightarrow> pystr \<Rightarrow> pystr \<Rightarrow> json" where
  "web_record u i chunk h =
     (let path_part = (if url_path u \<noteq> [] then url_path u else ustr ''/'') in
      JObj [(ustr ''id'', JStr (netloc u @ path_part @ ustr ''#'' @ digits i)),
            (ustr ''source_type'', JStr (ustr ''web'')),
            (ustr ''file_name'', JStr (if path_part \<noteq> ustr ''/'' then path_part else ustr ''index.html'')),
            (ustr ''file_type'', JStr (ustr ''html'')),
            (ustr ''path'', JStr (url_str u)),
            (ustr ''text'', JStr chunk),
            (ustr ''sha1'', JStr h)])"

fun page_loop ::
  "(pystr \<Rightarrow> pystr) \<Rightarrow> url \<Rightarrow> pystr set \<times> line list \<Rightarrow> (nat \<times> pystr) list \<Rightarrow> pystr set \<times> line list" where
  "page_loop sha1 u (seen_chunks, out) [] = (seen_chunks, out)"
| "page_loop sha1 u (seen_chunks, out) ((i, chunk) # rest) =
     (let h = sha1 chunk in
      if h \<in> seen_chunks then page_loop sha1 u (seen_chunks, out) rest
      else page_loop sha1 u (insert h seen_chunks, out @ [Value (web_record u i chunk h)]) rest)"

definition page_records ::
  "(pystr \<Rightarrow> pystr) \<Rightarrow> url \<Rightarrow> pystr \<Rightarrow> pystr set \<times> line list \<Rightarrow> (pystr set \<times> line list) option" where
  "page_records sha1 u text st =
     (case web_chunk_text text 2500 100 of
        None \<Rightarrow> None
      | Some chunks \<Rightarrow> Some (page_loop sha1 u st (enumerate 1 chunks)))"

section \<open>Merging corpus files\<close>

text \<open>
  \<open>combine_jsonl\<close> of IndexingAzureAISearch.py. \<open>seen\<close> is a Python set: its members
  are hashable values, compared by \<open>==\<close>, under which \<open>True\<close>, \<open>1\<close> and \<open>1.0\<close> are one key.
  \<open>hash_key\<close> gives the key a value is stored under, and \<open>None\<close> for a list or a dict,
  where the membership test raises \<open>TypeError\<close>.
\<close>

fun hash_key :: "json \<Rightarrow> json option" where
  "hash_key JNull = Some JNull"
| "hash_key (JBool b) = Some (JFloat (if b then 1 else 0))"
| "hash_key (JInt i) = Some (JFloat (of_int i))"
| "hash_key (JFloat q) = Some (JFloat q)"
| "hash_key (JStr s) = Some (JStr s)"
| "hash_key (JArr xs) = None"
| "hash_key (JObj kvs) = None"

definition dedup_key :: "pydict \<Rightarrow> json" where
  "dedup_key rec = py_or (dict_get rec (ustr ''sha1'')) (dict_get rec (ustr ''id''))"

type_synonym combine_state = "json set \<times> json list"

fun combine_line :: "combine_state \<Rightarrow> line \<Rightarrow> error + combine_state" where
  "combine_line (seen, out) Blank = Inr (seen, out)"
| "combine_line (seen, out) Malformed = Inr (seen, out)"
| "combine_line (seen, out) (Value (JObj rec)) =
     (case hash_key (dedup_key rec) of
        None \<Rightarrow> Inl TypeError
      | Some key \<Rightarrow>
          if key \<in> seen then Inr (seen, out)
          else Inr (insert key seen, out @ [JObj rec]))"
| "combine_line (seen, out) (Value v) = Inl AttributeError"

fun combine_lines :: "combine_state \<Rightarrow> line list \<Rightarrow> error + combine_state" where
  "combine_lines st [] = Inr st"
| "combine_lines st (l # ls) =
     (case combine_line st l of Inl e \<Rightarrow> Inl e | Inr st' \<Rightarrow> combine_lines st' ls)"

text \<open>
  The file system maps a path to the lines of the file there. The result is the list of
  records written to \<open>out_path\<close>, which is taken to be none of the input paths.
\<close>

fun combine_paths :: "(pystr \<rightharpoonup> line list) \<Rightarrow> combine_state \<Rightarrow> pystr list \<Rightarrow> error + combine_state" where
  "combine_paths fs st [] = Inr st"
| "combine_paths fs st (p # ps) =
     (if p = [] \<or> fs p = None then combine_paths fs st ps
      else case combine_lines st (the (fs p)) of
             Inl e \<Rightarrow> Inl e
           | Inr st' \<Rightarrow> combine_paths fs st' ps)"

definition combine_jsonl :: "(pystr \<rightharpoonup> line list) \<Rightarrow> pystr list \<Rightarrow> error + json list" where
  "combine_jsonl fs paths =
     (case combine_paths fs ({}, []) paths of Inl e \<Rightarrow> Inl e | Inr (seen, out) \<Rightarrow> Inr out)"



section \<open>Embedding in batches\<close>

text \<open>
  \<open>build_embeddings\<close> of embeddings.py. The embedding service takes the texts of a batch
  and returns the vectors of \<open>resp.data\<close>, or fails. The state of the loop is the pending
  batch, the lines written to the output file and the log of the batches sent.
\<close>

type_synonym embed_service = "json list \<Rightarrow> error + rat list list"

record embed_state =
  batch_texts :: "json list"
  batch_recs :: "pydict list"
  fout :: "json list"
  calls :: "json list list"

definition attach :: "pydict \<Rightarrow> rat list \<Rightarrow> json" where
  "attach rec embedding =
     (let r1 = AList.update (ustr ''embedding'') (JArr (map JFloat embedding)) rec;
          r2 = AList.update (ustr ''embedding_dim'') (JInt (int (length embedding))) r1;
          r3 = (if map_of r2 (ustr ''content'') = None \<and> map_of r2 (ustr ''text'') \<noteq> None
                then AList.update (ustr ''content'') (dict_get r2 (ustr ''text''))
                       (AList.delete (ustr ''text'') r2)
                else r2)
      in JObj r3)"

definition flush_batch :: "embed_service \<Rightarrow> embed_state \<Rightarrow> error + embed_state" where
  "flush_batch embeddings_create st =
     (if batch_texts st = [] then Inr st
      else case embeddings_create (batch_texts st) of
             Inl e \<Rightarrow> Inl e
           | Inr data \<Rightarrow>
               Inr \<lparr>batch_texts = [], batch_recs = [],
                    fout = fout st @ map (\<lambda>(rec, item). attach rec item) (zip (batch_recs st) data),
                    calls = calls st @ [batch_texts st]\<rparr>)"

fun embed_line :: "embed_service \<Rightarrow> int \<Rightarrow> embed_state \<Rightarrow> line \<Rightarrow> error + embed_state" where
  "embed_line embeddings_create BATCH st Blank = Inr st"
| "embed_line embeddings_create BATCH st Malformed = Inl JSONDecodeError"
| "embed_line embeddings_create BATCH st (Value (JObj rec)) =
     (let txt = py_or (dict_get rec (ustr ''text'')) (dict_get rec (ustr ''content'')) in
      if \<not> truthy txt then Inr st
      else let st' = st\<lparr>batch_texts := batch_texts st @ [txt], batch_recs := batch_recs st @ [rec]\<rparr> in
        if int (length (batch_texts st')) \<ge> BATCH then flush_batch embeddings_create st' else Inr st')"
| "embed_line embeddings_create BATCH st (Value v) = Inl AttributeError"

fun embed_lines :: "embed_service \<Rightarrow> int \<Rightarrow> embed_state \<Rightarrow> line list \<Rightarrow> error + embed_state" where
  "embed_lines embeddings_create BATCH st [] = Inr st"
| "embed_lines embeddings_create BATCH st (l # ls) =
     (case embed_line embeddings_create BATCH st l of
        Inl e \<Rightarrow> Inl e
      | Inr st' \<Rightarrow> embed_lines embeddings_create BATCH st' ls)"

text \<open>
  \<open>batch_size\<close> is the optional argument and \<open>env_batch\<close> the integer read from the
  environment (16 when unset). The result is the output file and the batches sent.
\<close>

definition build_embeddings ::
  "embed_service \<Rightarrow> int option \<Rightarrow> int \<Rightarrow> line list \<Rightarrow> error + (json list \<times> json list list)" where
  "build_embeddings embeddings_create batch_size env_batch lines =
     (let BATCH = (case batch_size of None \<Rightarrow> env_batch
                   | Some b \<Rightarrow> if b \<noteq> 0 then b else env_batch)
      in case embed_lines embeddings_create BATCH
                \<lparr>batch_texts = [], batch_recs = [], fout = [], calls = []\<rparr> lines of
           Inl e \<Rightarrow> Inl e
         | Inr st \<Rightarrow>
             (case flush_batch embeddings_create st of
                Inl e \<Rightarrow> Inl e
              | Inr st' \<Rightarrow> Inr (fout st', calls st')))"

section \<open>Loading the embedded corpus\<close>

text \<open>
  \<open>load_embedded\<close> of IndexingAzureAISearch.py. \<open>x[:32766]\<close> cuts a str or a list and
  raises on any other non-empty value (\<open>TypeError\<close>; for a dict, \<open>KeyError\<close> from
  Python 3.12 on).
\<close>

record index_doc =
  doc_id :: pystr
  doc_content :: json
  doc_source :: pystr
  doc_embedding :: json

fun slice_content :: "json \<Rightarrow> json option" where
  "slice_content (JStr s) = Some (JStr (take 32766 s))"
| "slice_content (JArr xs) = Some (JArr (take 32766 xs))"
| "slice_content v = None"

fun load_line :: "(json \<Rightarrow> pystr) \<Rightarrow> line \<Rightarrow> error + index_doc option" where
  "load_line repr Blank = Inr None"
| "load_line repr Malformed = Inr None"
| "load_line repr (Value (JObj rec)) =
     (let emb = py_or (py_or (dict_get rec (ustr ''embedding'')) (dict_get rec (ustr ''vector'')))
                      (dict_get rec (ustr ''content_vector'')) in
      if \<not> truthy emb then Inr None
      else let raw_id = py_str repr (dict_get_default rec (ustr ''id'') (JStr [])) in
        case slice_content (py_or (py_or (py_or (dict_get rec (ustr ''content''))
                                                 (dict_get rec (ustr ''text'')))
                                          (dict_get rec (ustr ''page_content''))) (JStr [])) of
          None \<Rightarrow> Inl TypeError
        | Some content \<Rightarrow>
            Inr (Some \<lparr>doc_id = sanitize_id raw_id,
                       doc_content = content,
                       doc_source = py_str repr (py_or (py_or (dict_get rec (ustr ''source''))
                                                              (dict_get rec (ustr ''file_name'')))
                                                       (JStr (ustr ''local''))),
                       doc_embedding = emb\<rparr>))"
| "load_line repr (Value v) = Inl AttributeError"

fun load_lines :: "(json \<Rightarrow> pystr) \<Rightarrow> index_doc list \<Rightarrow> line list \<Rightarrow> error + index_doc list" where
  "load_lines repr docs [] = Inr docs"
| "load_lines repr docs (l # ls) =
     (case load_line repr l of
        Inl e \<Rightarrow> Inl e
      | Inr None \<Rightarrow> load_lines repr docs ls
      | Inr (Some d) \<Rightarrow> load_lines repr (docs @ [d]) ls)"

definition load_embedded :: "(json \<Rightarrow> pystr) \<Rightarrow> line list \<Rightarrow> error + index_doc list" where
  "load_embedded repr lines = load_lines repr [] lines"

section \<open>Retrieval\<close>

text \<open>
  \<open>search_with_query\<close> of QueryIndex.py, with the log of the calls made to the two
  external services. \<open>embeddings_create\<close> returns the vectors of \<open>resp.data\<close>, \<open>search\<close> the rows of
  the vector query. \<open>row_error\<close> is the exception that printing a row can raise.
\<close>

datatype service_call = EmbeddingsCreate pystr | VectorSearch "rat list" int

fun is_number :: "json \<Rightarrow> bool" where
  "is_number (JBool b) = True"
| "is_number (JInt i) = True"
| "is_number (JFloat q) = True"
| "is_number v = False"

fun row_error :: "json \<Rightarrow> error option" where
  "row_error (JObj r) =
     (case py_or (dict_get r (ustr ''content'')) (JStr []) of
        JStr content \<Rightarrow>
          (case map_of r (ustr ''@search.score'') of
             None \<Rightarrow> Some KeyError
           | Some (JStr s) \<Rightarrow> Some ValueError
           | Some score \<Rightarrow>
               if \<not> is_number score then Some TypeError
               else if map_of r (ustr ''id'') = None then Some KeyError
               else None)
      | v \<Rightarrow> Some AttributeError)"
| "row_error v = Some AttributeError"

fun rows_loop :: "json list \<Rightarrow> json list \<Rightarrow> error + json list" where
  "rows_loop matches [] = Inr matches"
| "rows_loop matches (r # rs) =
     (case row_error r of Some e \<Rightarrow> Inl e | None \<Rightarrow> rows_loop (matches @ [r]) rs)"

definition search_with_query ::
  "(pystr \<Rightarrow> error + rat list list) \<Rightarrow> (rat list \<Rightarrow> int \<Rightarrow> error + json list) \<Rightarrow>
   pystr \<Rightarrow> int \<Rightarrow> (error + json list) \<times> service_call list" where
  "search_with_query embeddings_create search query_text k =
     (if query_text = [] \<or> strip query_text = [] then (Inr [], [])
      else case embeddings_create query_text of
             Inl e \<Rightarrow> (Inl e, [EmbeddingsCreate query_text])
           | Inr [] \<Rightarrow> (Inl IndexError, [EmbeddingsCreate query_text])
           | Inr (query_vector # others) \<Rightarrow>
               (case search query_vector k of
                  Inl e \<Rightarrow> (Inl e, [EmbeddingsCreate query_text, VectorSearch query_vector k])
                | Inr results \<Rightarrow>
                    (rows_loop [] results,
                     [EmbeddingsCreate query_text, VectorSearch query_vector k])))"

section \<open>Context assembly\<close>

text \<open>\<open>_txt\<close> (here \<open>txt_of\<close>) and \<open>build_context\<close> of RAGLLM.py. \<open>lower\<close> is \<open>str.lower\<close> and
  \<open>stem_title\<close> is \<open>Path(src).stem.replace("_", " ").title()\<close>.\<close>

definition txt_of :: "pydict \<Rightarrow> json" where
  "txt_of d =
     (if truthy (dict_get d (ustr ''text'')) then dict_get d (ustr ''text'')
      else if truthy (dict_get d (ustr ''content'')) then dict_get d (ustr ''content'')
      else if truthy (dict_get d (ustr ''chunk'')) then dict_get d (ustr ''chunk'')
      else if truthy (dict_get d (ustr ''page_content'')) then dict_get d (ustr ''page_content'')
      else JStr [])"

definition source_ref ::
  "(json \<Rightarrow> pystr) \<Rightarrow> (pystr \<Rightarrow> pystr) \<Rightarrow> (pystr \<Rightarrow> pystr) \<Rightarrow> nat \<Rightarrow> pydict \<Rightarrow> pystr \<Rightarrow> pystr" where
  "source_ref repr lower stem_title i d src =
     (let page = py_or (dict_get d (ustr ''page'')) (dict_get d (ustr ''page_number''));
          title = (if src \<noteq> [] then py_str repr (py_or (dict_get d (ustr ''title'')) (JStr (stem_title src)))
                   else ustr ''Source '' @ digits i)
      in if starts_with (lower src) (ustr ''http'') then title @ ustr '' - '' @ src
         else if src \<noteq> [] then
           title @ (if truthy page then ustr '' (Page '' @ py_str repr page @ ustr '')'' else [])
         else ustr ''Source '' @ digits i)"

definition entry :: "nat \<Rightarrow> pystr \<Rightarrow> pystr \<Rightarrow> pystr" where
  "entry i body ref =
     ustr ''['' @ digits i @ ustr ''] '' @ join (ustr '' '') (split_ws body) @
     [10] @ ustr ''(Source: '' @ ref @ ustr '')''"

fun context_line ::
  "(json \<Rightarrow> pystr) \<Rightarrow> (pystr \<Rightarrow> pystr) \<Rightarrow> (pystr \<Rightarrow> pystr) \<Rightarrow> nat \<Rightarrow> json \<Rightarrow> error + pystr option" where
  "context_line repr lower stem_title i (JObj d) =
     (if \<not> truthy (txt_of d) then Inr None
      else case dict_get_default d (ustr ''source'') (JStr []) of
             JStr src \<Rightarrow>
               (case txt_of d of
                  JStr body \<Rightarrow> Inr (Some (entry i body (source_ref repr lower stem_title i d src)))
                | v \<Rightarrow> Inl AttributeError)
           | src \<Rightarrow>
               if truthy src \<and> \<not> truthy (dict_get d (ustr ''title'')) then Inl TypeError
               else Inl AttributeError)"
| "context_line repr lower stem_title i v = Inl AttributeError"

fun context_lines ::
  "(json \<Rightarrow> pystr) \<Rightarrow> (pystr \<Rightarrow> pystr) \<Rightarrow> (pystr \<Rightarrow> pystr) \<Rightarrow> pystr list \<Rightarrow> (nat \<times> json) list \<Rightarrow>
   error + pystr list" where
  "context_lines repr lower stem_title lines [] = Inr lines"
| "context_lines repr lower stem_title lines ((i, d) # rest) =
     (case context_line repr lower stem_title i d of
        Inl e \<Rightarrow> Inl e
      | Inr None \<Rightarrow> context_lines repr lower stem_title lines rest
      | Inr (Some l) \<Rightarrow> context_lines repr lower stem_title (lines @ [l]) rest)"

definition build_context ::
  "(json \<Rightarrow> pystr) \<Rightarrow> (pystr \<Rightarrow> pystr) \<Rightarrow> (pystr \<Rightarrow> pystr) \<Rightarrow> json list \<Rightarrow> error + pystr" where
  "build_context repr lower stem_title docs =
     (case context_lines repr lower stem_title [] (enumerate 1 docs) of
        Inl e \<Rightarrow> Inl e
      | Inr lines \<Rightarrow> Inr (join [10, 10] lines))"



section \<open>Notions used in the statements\<close>

text \<open>The values of the lines that parse, in file order.\<close>

fun parsed :: "line list \<Rightarrow> json list" where
  "parsed [] = []"
| "parsed (Value v # ls) = v # parsed ls"
| "parsed (l # ls) = parsed ls"

text \<open>The key \<open>combine_jsonl\<close> stores a record under; \<open>None\<close> when there is none
  (the value is no dict, or the key is unhashable).\<close>

fun record_key :: "json \<Rightarrow> json option" where
  "record_key (JObj rec) = hash_key (dedup_key rec)"
| "record_key v = None"

text \<open>The content fingerprint of a record: the value under \<open>sha1\<close>.\<close>

fun fingerprint :: "json \<Rightarrow> json" where
  "fingerprint (JObj rec) = dict_get rec (ustr ''sha1'')"
| "fingerprint v = JNull"

text \<open>A line \<open>combine_jsonl\<close> reads without raising: one that does not parse, or a
  dict whose key is hashable.\<close>

fun record_line :: "line \<Rightarrow> bool" where
  "record_line (Value v) = (record_key v \<noteq> None)"
| "record_line l = True"

text \<open>The lines \<open>combine_jsonl\<close> reads: those of the input files that exist, in order.\<close>

fun input_lines :: "(pystr \<rightharpoonup> line list) \<Rightarrow> pystr list \<Rightarrow> line list" where
  "input_lines fs [] = []"
| "input_lines fs (p # ps) =
     (if p = [] \<or> fs p = None then input_lines fs ps else the (fs p) @ input_lines fs ps)"

text \<open>The positions of a list of records whose key does not occur before them.\<close>

definition first_positions :: "json list \<Rightarrow> nat set" where
  "first_positions rs =
     {i. i < length rs \<and> (\<forall>j<i. record_key (rs ! j) \<noteq> record_key (rs ! i))}"

text \<open>
  The vector and the text of a record as \<open>load_embedded\<close> picks them; a record has a
  vector when the value picked is not empty. A line is loadable when it does not
  parse, or parses to a dict whose text, if the record has a vector, can be cut.
\<close>

definition vector_of :: "pydict \<Rightarrow> json" where
  "vector_of rec =
     py_or (py_or (dict_get rec (ustr ''embedding'')) (dict_get rec (ustr ''vector'')))
           (dict_get rec (ustr ''content_vector''))"

definition payload_of :: "pydict \<Rightarrow> json" where
  "payload_of rec =
     py_or (py_or (py_or (dict_get rec (ustr ''content'')) (dict_get rec (ustr ''text'')))
                  (dict_get rec (ustr ''page_content''))) (JStr [])"

fun has_vector :: "json \<Rightarrow> bool" where
  "has_vector (JObj rec) = truthy (vector_of rec)"
| "has_vector v = False"

fun loadable :: "line \<Rightarrow> bool" where
  "loadable (Value (JObj rec)) =
     (\<not> truthy (vector_of rec) \<or> slice_content (payload_of rec) \<noteq> None)"
| "loadable (Value v) = False"
| "loadable l = True"

text \<open>
  The values of a retrieved document under the keys \<open>_txt\<close> accepts, in the order it
  tries them. A document has text when the value under \<open>text\<close>, \<open>content\<close>, \<open>chunk\<close>
  or \<open>page_content\<close> is not empty, and its text is the first of these that is not
  empty. It is well-typed for \<open>build_context\<close> when it is a dict whose text and source,
  if it has text, are strings.
\<close>

fun text_values :: "json \<Rightarrow> json list" where
  "text_values (JObj d) =
     [dict_get d (ustr ''text''), dict_get d (ustr ''content''), dict_get d (ustr ''chunk''),
      dict_get d (ustr ''page_content'')]"
| "text_values v = []"

fun has_text :: "json \<Rightarrow> bool" where
  "has_text (JObj d) =
     (truthy (dict_get d (ustr ''text'')) \<or> truthy (dict_get d (ustr ''content'')) \<or>
      truthy (dict_get d (ustr ''chunk'')) \<or> truthy (dict_get d (ustr ''page_content'')))"
| "has_text v = False"

definition first_text :: "json \<Rightarrow> json" where
  "first_text v = (case List.find truthy (text_values v) of Some t \<Rightarrow> t | None \<Rightarrow> JStr [])"

fun is_str :: "json \<Rightarrow> bool" where
  "is_str (JStr s) = True"
| "is_str v = False"

fun context_doc :: "json \<Rightarrow> bool" where
  "context_doc (JObj d) =
     (\<not> has_text (JObj d) \<or>
      (is_str (first_text (JObj d)) \<and> is_str (dict_get_default d (ustr ''source'') (JStr []))))"
| "context_doc v = False"

text \<open>
  The text \<open>build_embeddings\<close> extracts from a record, the records of a file that have
  one (those that are batched), and the lines it reads without raising: blank lines
  and dicts.
\<close>

definition text_of :: "pydict \<Rightarrow> json" where
  "text_of rec = py_or (dict_get rec (ustr ''text'')) (dict_get rec (ustr ''content''))"

fun text_records :: "line list \<Rightarrow> pydict list" where
  "text_records [] = []"
| "text_records (Value (JObj rec) # ls) =
     (if truthy (text_of rec) then rec # text_records ls else text_records ls)"
| "text_records (l # ls) = text_records ls"

fun embeddable :: "line \<Rightarrow> bool" where
  "embeddable Blank = True"
| "embeddable (Value (JObj rec)) = True"
| "embeddable l = False"

text \<open>The consecutive batches of size \<open>B\<close> of a list, the last one possibly smaller.\<close>

function consecutive_batches :: "nat \<Rightarrow> 'a list \<Rightarrow> 'a list list" where
  "consecutive_batches B xs =
     (if xs = [] \<or> B = 0 then [] else take B xs # consecutive_batches B (drop B xs))"
  by pat_completeness auto
termination
  by (relation "measure (\<lambda>(B, xs). length xs)") auto

declare consecutive_batches.simps [simp del]

text \<open>The id of a record.\<close>

fun record_id :: "json \<Rightarrow> json" where
  "record_id (JObj rec) = dict_get rec (ustr ''id'')"
| "record_id v = JNull"

section \<open>Termination of the chunkers\<close>

text \<open>With a positive chunk size the loop of data.py always returns: the start moves
  forward in every round.\<close>

lemma data_chunk_loop_terminates:
  assumes "0 < chunk_size"
  shows "\<exists>r. data_chunk_loop text chunk_size overlap start chunks = Some r"
proof (induction "nat (int (length text) - start)" arbitrary: start chunks rule: less_induct)
  case less
  show ?case
  proof (cases "start < int (length text)")
    case False
    then show ?thesis by (subst data_chunk_loop.simps) simp
  next
    case True
    define nxt where
      "nxt = (if start + chunk_size - overlap > start then start + chunk_size - overlap
              else start + chunk_size)"
    have "start < nxt" using assms by (simp add: nxt_def)
    with True have "nat (int (length text) - nxt) < nat (int (length text) - start)" by linarith
    from less[OF this] have "\<exists>r. data_chunk_loop text chunk_size overlap nxt cs = Some r" for cs
      by blast
    then show ?thesis
      by (subst data_chunk_loop.simps) (simp add: True Let_def nxt_def)
  qed
qed


lemma data_chunk_text_terminates:
  "0 < chunk_size \<Longrightarrow> \<exists>r. data_chunk_text text chunk_size overlap = Some r"
  unfolding data_chunk_text_def by (rule data_chunk_loop_terminates)

text \<open>
  The loop of webscrape.py has no such clamp. Once the window reaches the end of the
  text the next start is \<open>len(text) - overlap\<close>, which is below \<open>len(text)\<close> again and not
  negative: the condition below is kept by every round, and no round returns.
\<close>

lemma web_chunk_loop_stuck:
  assumes "web_chunk_loop t m ov s cs = Some y"
  shows "\<not> (0 < ov \<and> ov \<le> m \<and> ov \<le> int (length t) \<and> 0 \<le> s \<and> s \<le> int (length t) - ov)"
proof (rule web_chunk_loop.raw_induct
    [where P = "\<lambda>t m ov s cs y. \<not> (0 < ov \<and> ov \<le> m \<and> ov \<le> int (length t) \<and> 0 \<le> s \<and>
                  s \<le> int (length t) - ov)", OF _ assms])
  fix f :: "pystr \<Rightarrow> int \<Rightarrow> int \<Rightarrow> int \<Rightarrow> pystr list \<Rightarrow> pystr list option"
    and t :: pystr and m ov s :: int and cs y :: "pystr list"
  assume IH: "\<And>(t::pystr) m ov s cs y. f t m ov s cs = Some y \<Longrightarrow>
      \<not> (0 < ov \<and> ov \<le> m \<and> ov \<le> int (length t) \<and> 0 \<le> s \<and> s \<le> int (length t) - ov)"
  assume step: "(if s < int (length t) then
        let end = min (s + m) (int (length t));
            chunk = strip (py_slice t s end);
            chunks' = (if chunk \<noteq> [] then cs @ [chunk] else cs);
            start' = end - ov
        in if start' < 0 then Some chunks' else f t m ov start' chunks'
      else Some cs) = Some y"
  show "\<not> (0 < ov \<and> ov \<le> m \<and> ov \<le> int (length t) \<and> 0 \<le> s \<and> s \<le> int (length t) - ov)"
  proof
    assume inv: "0 < ov \<and> ov \<le> m \<and> ov \<le> int (length t) \<and> 0 \<le> s \<and> s \<le> int (length t) - ov"
    define e where "e = min (s + m) (int (length t))"
    from inv have lt: "s < int (length t)" by linarith
    from inv have nn: "\<not> e - ov < 0" unfolding e_def by linarith
    from step lt nn obtain cs' where "f t m ov (e - ov) cs' = Some y"
      by (simp add: Let_def e_def)
    from IH[OF this] inv show False unfolding e_def by linarith
  qed
qed

lemma web_chunk_text_diverges:
  assumes "0 < overlap" "overlap \<le> max_chars" "overlap \<le> int (length text)"
  shows "web_chunk_text text max_chars overlap = None"
proof (cases "web_chunk_text text max_chars overlap")
  case None then show ?thesis .
next
  case (Some y)
  then have "web_chunk_loop text max_chars overlap 0 [] = Some y" by (simp add: web_chunk_text_def)
  from web_chunk_loop_stuck[OF this] assms show ?thesis by simp
qed


text \<open>So the crawl loop does not get past a page with 100 characters of text.\<close>

lemma page_records_never_returns:
  "page_records sha1 u (replicate 100 97) st = None"
  using web_chunk_text_diverges[of 100 2500 "replicate 100 97"]
  by (simp add: page_records_def)

text \<open>The loop of data.py does not return either when the chunk size is not positive.\<close>

lemma data_chunk_loop_stuck:
  assumes "data_chunk_loop t c ov s cs = Some y"
  shows "\<not> (c \<le> 0 \<and> 0 \<le> ov \<and> t \<noteq> [] \<and> s \<le> 0)"
proof (rule data_chunk_loop.raw_induct
    [where P = "\<lambda>t c ov s cs y. \<not> (c \<le> 0 \<and> 0 \<le> ov \<and> t \<noteq> [] \<and> s \<le> 0)", OF _ assms])
  fix f :: "pystr \<Rightarrow> int \<Rightarrow> int \<Rightarrow> int \<Rightarrow> pystr list \<Rightarrow> pystr list option"
    and t :: pystr and c ov s :: int and cs y :: "pystr list"
  assume IH: "\<And>(t::pystr) c ov s cs y. f t c ov s cs = Some y \<Longrightarrow>
      \<not> (c \<le> 0 \<and> 0 \<le> ov \<and> t \<noteq> [] \<and> s \<le> 0)"
  assume step: "(if s < int (length t) then
        let end = s + c;
            chunk = strip (py_slice t s end);
            chunks' = (if chunk \<noteq> [] then cs @ [chunk] else cs);
            next_start = end - ov
        in f t c ov (if next_start > s then next_start else end) chunks'
      else Some cs) = Some y"
  show "\<not> (c \<le> 0 \<and> 0 \<le> ov \<and> t \<noteq> [] \<and> s \<le> 0)"
  proof
    assume inv: "c \<le> 0 \<and> 0 \<le> ov \<and> t \<noteq> [] \<and> s \<le> 0"
    then have lt: "s < int (length t)" by (cases t) auto
    from inv have "\<not> s + c - ov > s" by linarith
    with step lt obtain cs' where "f t c ov (s + c) cs' = Some y"
      by (simp add: Let_def)
    from IH[OF this] inv show False by linarith
  qed
qed


lemma data_chunk_text_diverges:
  assumes "chunk_size \<le> 0" "0 \<le> overlap" "text \<noteq> []"
  shows "data_chunk_text text chunk_size overlap = None"
proof (cases "data_chunk_text text chunk_size overlap")
  case None
  then show ?thesis .
next
  case (Some y)
  then have "data_chunk_loop text chunk_size overlap 0 [] = Some y"
    by (simp add: data_chunk_text_def)
  from data_chunk_loop_stuck[OF this] assms show ?thesis by simp
qed

lemma strip_replicate_a: "strip (replicate n 97) = replicate n 97"
  by (simp add: strip_def is_space_def)

lemma py_slice_all: "int (length xs) \<le> j \<Longrightarrow> py_slice xs 0 j = xs"
  by (simp add: py_slice_def slice_index_def Let_def)

text \<open>
  Claim C1: for every text and every chunk-size/overlap configuration the split
  terminates, in both chunkers. The code breaks it: on a text of 100 letters, with the
  configuration \<open>crawl_website\<close> uses (2500 characters, overlap 100), the chunker of
  data.py returns one chunk and the chunker of webscrape.py never returns.
\<close>

theorem web_chunk_text_never_returns:
  "data_chunk_text (replicate 100 97) 2500 100 = Some [replicate 100 97] \<and>
   web_chunk_text (replicate 100 97) 2500 100 = None"
proof
  have "data_chunk_loop (replicate 100 97) 2500 100 0 [] =
        data_chunk_loop (replicate 100 97) 2500 100 2400 [replicate 100 97]"
    by (subst data_chunk_loop.simps) (simp add: Let_def py_slice_all strip_replicate_a)
  also have "\<dots> = Some [replicate 100 97]"
    by (subst data_chunk_loop.simps) simp
  finally show "data_chunk_text (replicate 100 97) 2500 100 = Some [replicate 100 97]"
    by (simp add: data_chunk_text_def)
  show "web_chunk_text (replicate 100 97) 2500 100 = None"
    by (rule web_chunk_text_diverges) simp_all
qed

section \<open>Short inputs\<close>

lemma strip_nonempty: "strip t \<noteq> [] \<Longrightarrow> t \<noteq> []"
  by (auto simp: strip_def)

text \<open>
  Claim C2, as the code has it: for a text whose trimmed form is not empty and whose
  length is below the chunk size \<open>S\<close>, the chunker of data.py returns the trimmed text
  as its only chunk when the advance \<open>S - O\<close> reaches the end of the text (or \<open>O \<ge> S\<close>),
  and the chunker of webscrape.py does so when the overlap is not positive or exceeds
  the length of the text.
\<close>

theorem short_text_single_chunk:
  assumes "strip t \<noteq> []" and "int (length t) < S"
  shows "(int (length t) \<le> S - ov \<or> S \<le> ov \<longrightarrow> data_chunk_text t S ov = Some [strip t]) \<and>
         (ov \<le> 0 \<or> int (length t) < ov \<longrightarrow> web_chunk_text t S ov = Some [strip t])"
proof (intro conjI impI)
  from assms(1) have ne: "t \<noteq> []" by (rule strip_nonempty)
  then have pos: "0 < int (length t)" by simp
  {
    assume adv: "int (length t) \<le> S - ov \<or> S \<le> ov"
    define nxt where "nxt = (if 0 < S - ov then S - ov else S)"
    from adv assms(2) have stop: "\<not> nxt < int (length t)" by (auto simp: nxt_def)
    have "data_chunk_loop t S ov 0 [] = data_chunk_loop t S ov nxt [strip t]"
      using pos assms by (subst data_chunk_loop.simps) (simp add: Let_def py_slice_all nxt_def)
    also have "\<dots> = Some [strip t]"
      using stop by (subst data_chunk_loop.simps) simp
    finally show "data_chunk_text t S ov = Some [strip t]" by (simp add: data_chunk_text_def)
  }
  {
    assume ovl: "ov \<le> 0 \<or> int (length t) < ov"
    have m: "min S (int (length t)) = int (length t)" using assms(2) by simp
    show "web_chunk_text t S ov = Some [strip t]"
    proof (cases "int (length t) < ov")
      case True
      then show ?thesis
        unfolding web_chunk_text_def using pos assms
        by (subst web_chunk_loop.simps) (simp add: Let_def py_slice_all m)
    next
      case False
      with ovl have le: "ov \<le> 0" by simp
      have "web_chunk_loop t S ov 0 [] = web_chunk_loop t S ov (int (length t) - ov) [strip t]"
        using pos assms le by (subst web_chunk_loop.simps) (simp add: Let_def py_slice_all m)
      also have "\<dots> = Some [strip t]"
        using le by (subst web_chunk_loop.simps) simp
      finally show ?thesis by (simp add: web_chunk_text_def)
    qed
  }
qed

theorem short_text_single_chunk_witness:
  "data_chunk_text (ustr '' ab '') 5 0 = Some [ustr ''ab''] \<and>
   web_chunk_text (ustr '' ab '') 5 0 = Some [ustr ''ab'']"
  using short_text_single_chunk[of "ustr '' ab ''" 5 0]
  by (simp add: ustr_def strip_def is_space_def)

text \<open>
  Claim C2 as stated fails: the text \<open>abc\<close> is not empty and shorter than the chunk size
  4, and with overlap 2 the chunker of data.py returns two chunks, the second one the
  overlapping tail.
\<close>

theorem short_text_two_chunks:
  "ustr ''abc'' \<noteq> [] \<and> int (length (ustr ''abc'')) < 4 \<and>
   data_chunk_text (ustr ''abc'') 4 2 = Some [ustr ''abc'', ustr ''c''] \<and>
   data_chunk_text (ustr ''abc'') 4 2 \<noteq> Some [strip (ustr ''abc'')]"
  by (simp add: data_chunk_text_def data_chunk_loop.simps ustr_def strip_def is_space_def
      py_slice_def slice_index_def Let_def)

section \<open>Sanitized ids\<close>

lemma sanitize_id_fixed:
  assumes "r \<noteq> []" "list_all allowed_char r" "length r \<le> 512"
  shows "sanitize_id r = r"
proof -
  from assms(2) have "map (\<lambda>c. if allowed_char c then c else 95) r = r"
    by (induction r) simp_all
  with assms(1,3) show ?thesis by (simp add: sanitize_id_def)
qed

lemma list_all_take: "list_all P xs \<Longrightarrow> list_all P (take n xs)"
  by (metis append_take_drop_id list_all_append)

lemma missing_id_allowed: "list_all allowed_char (ustr ''missing_id'')"
  by (simp add: ustr_def allowed_char_def)

lemma sanitize_id_allowed: "list_all allowed_char (sanitize_id s)"
proof (cases "s = []")
  case True
  then show ?thesis by (simp add: sanitize_id_def missing_id_allowed)
next
  case False
  have "list_all allowed_char (map (\<lambda>c. if allowed_char c then c else 95) s)"
    by (induction s) (simp_all add: allowed_char_def)
  then have "list_all allowed_char (take 512 (map (\<lambda>c. if allowed_char c then c else 95) s))"
    by (rule list_all_take)
  with False show ?thesis by (simp add: sanitize_id_def)
qed

lemma sanitize_id_nonempty: "sanitize_id s \<noteq> []"
  by (cases s) (simp_all add: sanitize_id_def ustr_def)

lemma sanitize_id_length: "length (sanitize_id s) \<le> 512"
  by (simp add: sanitize_id_def ustr_def)

text \<open>
  Claim C6: \<open>sanitize_id\<close> is idempotent, the empty string maps to \<open>missing_id\<close>, and
  every output is non-empty, has only characters of \<open>[A-Za-z0-9_\-=]\<close> and at most 512
  of them.
\<close>

theorem sanitize_id_idempotent:
  "sanitize_id (sanitize_id s) = sanitize_id s \<and>
   sanitize_id [] = ustr ''missing_id'' \<and>
   sanitize_id s \<noteq> [] \<and>
   list_all allowed_char (sanitize_id s) \<and>
   length (sanitize_id s) \<le> 512"
  using sanitize_id_fixed[OF sanitize_id_nonempty sanitize_id_allowed sanitize_id_length]
  by (simp add: sanitize_id_nonempty sanitize_id_allowed sanitize_id_length)
     (simp add: sanitize_id_def)

theorem sanitize_id_idempotent_witness:
  "sanitize_id (ustr ''www.ndis.gov.au/about#1'') = ustr ''www_ndis_gov_au_about_1'' \<and>
   sanitize_id (ustr ''www_ndis_gov_au_about_1'') = ustr ''www_ndis_gov_au_about_1''"
  using sanitize_id_idempotent[of "ustr ''www.ndis.gov.au/about#1''"]
  by (simp add: sanitize_id_def allowed_char_def ustr_def)

section \<open>Merging and deduplication\<close>

lemma combine_lines_append:
  "combine_lines st (xs @ ys) =
     (case combine_lines st xs of Inl e \<Rightarrow> Inl e | Inr st' \<Rightarrow> combine_lines st' ys)"
  by (induction xs arbitrary: st) (auto split: sum.splits)

lemma combine_paths_lines: "combine_paths fs st ps = combine_lines st (input_lines fs ps)"
  by (induction ps arbitrary: st) (auto simp: combine_lines_append split: sum.splits)

lemma combine_line_cases:
  assumes "combine_line (seen, out) l = Inr (seen', out')"
  shows "(seen' = seen \<and> out' = out \<and> (\<forall>v. l = Value v \<longrightarrow> (\<exists>k. record_key v = Some k \<and> k \<in> seen))) \<or>
         (\<exists>v k. l = Value v \<and> record_key v = Some k \<and> k \<notin> seen \<and> seen' = insert k seen \<and> out' = out @ [v])"
  using assms
  by (cases "((seen, out), l)" rule: combine_line.cases) (auto split: option.splits if_splits)

lemma combine_line_ok:
  "record_line l \<Longrightarrow> \<exists>st'. combine_line st l = Inr st'"
  by (cases "(st, l)" rule: combine_line.cases) (auto split: option.splits)

lemma combine_lines_ok:
  "list_all record_line ls \<Longrightarrow> \<exists>st'. combine_lines st ls = Inr st'"
proof (induction ls arbitrary: st)
  case Nil
  then show ?case by simp
next
  case (Cons l ls)
  then obtain st1 where "combine_line st l = Inr st1" using combine_line_ok by fastforce
  with Cons show ?case by simp
qed

lemma combine_lines_mono:
  "combine_lines (seen, out) ls = Inr (seen', out') \<Longrightarrow> seen \<subseteq> seen'"
proof (induction ls arbitrary: seen out)
  case Nil
  then show ?case by simp
next
  case (Cons l ls)
  then obtain s1 o1 where 1: "combine_line (seen, out) l = Inr (s1, o1)"
    and 2: "combine_lines (s1, o1) ls = Inr (seen', out')"
    by (auto split: sum.splits)
  from combine_line_cases[OF 1] have "seen \<subseteq> s1" by auto
  with Cons.IH[OF 2] show ?case by simp
qed

lemma combine_lines_again:
  "combine_lines (seen, out) ls = Inr (seen', out') \<Longrightarrow> seen' \<subseteq> S \<Longrightarrow>
   combine_lines (S, Out) ls = Inr (S, Out)"
proof (induction ls arbitrary: seen out)
  case Nil
  then show ?case by simp
next
  case (Cons l ls)
  then obtain s1 o1 where 1: "combine_line (seen, out) l = Inr (s1, o1)"
    and 2: "combine_lines (s1, o1) ls = Inr (seen', out')"
    by (auto split: sum.splits)
  from combine_lines_mono[OF 2] Cons.prems(2) have sub: "s1 \<subseteq> S" by simp
  have "combine_line (S, Out) l = Inr (S, Out)"
  proof (cases l)
    case (Value v)
    from combine_line_cases[OF 1] Value obtain k where k: "record_key v = Some k" "k \<in> s1"
      by auto
    from k(1) obtain rec where "v = JObj rec" by (cases v) auto
    with k sub Value show ?thesis by auto
  qed simp_all
  with Cons.IH[OF 2 Cons.prems(2)] show ?case by simp
qed

lemma combine_lines_filter:
  "combine_lines (seen, out) ls = Inr (seen', out') \<Longrightarrow>
   filter (\<lambda>v. record_key v = Some k) out' =
     filter (\<lambda>v. record_key v = Some k) out @
     (if k \<in> seen then [] else take 1 (filter (\<lambda>v. record_key v = Some k) (parsed ls)))"
proof (induction ls arbitrary: seen out)
  case Nil
  then show ?case by simp
next
  case (Cons l ls)
  then obtain s1 o1 where 1: "combine_line (seen, out) l = Inr (s1, o1)"
    and 2: "combine_lines (s1, o1) ls = Inr (seen', out')"
    by (auto split: sum.splits)
  note IH = Cons.IH[OF 2]
  from combine_line_cases[OF 1] show ?case
  proof (elim disjE conjE exE)
    assume same: "s1 = seen" "o1 = out"
      and "\<forall>v. l = Value v \<longrightarrow> (\<exists>k. record_key v = Some k \<and> k \<in> seen)"
    then show ?thesis using IH by (cases l) auto
  next
    fix v k0
    assume "l = Value v" "record_key v = Some k0" "k0 \<notin> seen" "s1 = insert k0 seen" "o1 = out @ [v]"
    then show ?thesis using IH by auto
  qed
qed

lemma all_less_Suc_shift: "(\<forall>j<Suc i. P j) \<longleftrightarrow> P 0 \<and> (\<forall>j<i. P (Suc j))"
  by (auto simp: less_Suc_eq_0_disj)

lemma combine_lines_nths:
  "combine_lines (seen, out) ls = Inr (seen', out') \<Longrightarrow>
   out' = out @ nths (parsed ls)
     {i. i < length (parsed ls) \<and> (\<forall>k\<in>seen. record_key (parsed ls ! i) \<noteq> Some k) \<and>
         (\<forall>j<i. record_key (parsed ls ! j) \<noteq> record_key (parsed ls ! i))}"
proof (induction ls arbitrary: seen out)
  case Nil
  then show ?case by simp
next
  case (Cons l ls)
  then obtain s1 o1 where 1: "combine_line (seen, out) l = Inr (s1, o1)"
    and 2: "combine_lines (s1, o1) ls = Inr (seen', out')"
    by (auto split: sum.splits)
  note IH = Cons.IH[OF 2]
  from combine_line_cases[OF 1] show ?case
  proof (elim disjE conjE exE)
    assume same: "s1 = seen" "o1 = out"
      and seen: "\<forall>v. l = Value v \<longrightarrow> (\<exists>k. record_key v = Some k \<and> k \<in> seen)"
    show ?thesis
    proof (cases l)
      case (Value v)
      with seen obtain k where k: "record_key v = Some k" "k \<in> seen" by auto
      have "{j. Suc j < Suc (length (parsed ls)) \<and> (\<forall>k\<in>seen. record_key (parsed ls ! j) \<noteq> Some k) \<and>
               (\<forall>j'<Suc j. record_key ((v # parsed ls) ! j') \<noteq> record_key (parsed ls ! j))} =
            {j. j < length (parsed ls) \<and> (\<forall>k\<in>seen. record_key (parsed ls ! j) \<noteq> Some k) \<and>
               (\<forall>j'<j. record_key (parsed ls ! j') \<noteq> record_key (parsed ls ! j))}"
        using k by (auto simp: all_less_Suc_shift)
      then show ?thesis using IH same Value k by (simp add: nths_Cons)
    qed (use IH same in simp_all)
  next
    fix v k0
    assume l: "l = Value v" and k0: "record_key v = Some k0" "k0 \<notin> seen"
      and st: "s1 = insert k0 seen" "o1 = out @ [v]"
    have "{j. Suc j < Suc (length (parsed ls)) \<and> (\<forall>k\<in>seen. record_key (parsed ls ! j) \<noteq> Some k) \<and>
               (\<forall>j'<Suc j. record_key ((v # parsed ls) ! j') \<noteq> record_key (parsed ls ! j))} =
          {j. j < length (parsed ls) \<and> (\<forall>k\<in>insert k0 seen. record_key (parsed ls ! j) \<noteq> Some k) \<and>
               (\<forall>j'<j. record_key (parsed ls ! j') \<noteq> record_key (parsed ls ! j))}"
      using k0 by (auto simp: all_less_Suc_shift)
    then show ?thesis using IH st l k0 by (simp add: nths_Cons)
  qed
qed

lemma fingerprint_key:
  "h \<noteq> [] \<Longrightarrow> fingerprint v = JStr h \<Longrightarrow> record_key v = Some (JStr h)"
  by (cases v) (simp_all add: dedup_key_def py_or_def)

lemma web_record_fingerprint: "fingerprint (web_record u i chunk h) = JStr h"
  by (simp add: web_record_def dict_get_def ustr_def Let_def)

text \<open>The crawl loop keeps, for every hash, the first chunk of a page that has it, unless
  an earlier page had it.\<close>

lemma page_loop_first_wins:
  "page_loop sha1 u (seen, out) cs = (seen', out') \<Longrightarrow>
   seen' = seen \<union> sha1 ` snd ` set cs \<and>
   filter (\<lambda>l. \<exists>v. l = Value v \<and> fingerprint v = JStr h) out' =
     filter (\<lambda>l. \<exists>v. l = Value v \<and> fingerprint v = JStr h) out @
     (if h \<in> seen then []
      else take 1 (map (\<lambda>(i, chunk). Value (web_record u i chunk h))
                       (filter (\<lambda>(i, chunk). sha1 chunk = h) cs)))"
proof (induction cs arbitrary: seen out)
  case Nil
  then show ?case by simp
next
  case (Cons c cs)
  obtain i chunk where c: "c = (i, chunk)" by (cases c)
  show ?case
  proof (cases "sha1 chunk \<in> seen")
    case True
    with Cons.prems c have "page_loop sha1 u (seen, out) cs = (seen', out')" by simp
    from Cons.IH[OF this] True c show ?thesis by auto
  next
    case False
    with Cons.prems c have
      "page_loop sha1 u (insert (sha1 chunk) seen,
         out @ [Value (web_record u i chunk (sha1 chunk))]) cs = (seen', out')"
      by (simp add: Let_def)
    from Cons.IH[OF this] False c show ?thesis
      by (auto simp: web_record_fingerprint)
  qed
qed

text \<open>
  Claim C4, as the code has it: when every line read is unparseable or a dict with a
  hashable key, \<open>combine_jsonl\<close> returns the records at the positions whose key did
  not occur before, in input order; so for every key exactly one record is kept, the
  first. The key is the fingerprint \<open>sha1\<close> when the record has a non-empty one,
  otherwise the id. Of the records sharing a fingerprint exactly the first is kept,
  provided no record without a fingerprint has that value as its id.
\<close>

theorem combine_jsonl_first_seen_wins:
  assumes "list_all record_line (input_lines fs paths)"
  shows "\<exists>out. combine_jsonl fs paths = Inr out \<and>
           out = nths (parsed (input_lines fs paths)) (first_positions (parsed (input_lines fs paths))) \<and>
           (\<forall>k. filter (\<lambda>v. record_key v = Some k) out =
                take 1 (filter (\<lambda>v. record_key v = Some k) (parsed (input_lines fs paths)))) \<and>
           (\<forall>h. h \<noteq> [] \<and>
                (\<forall>v \<in> set (parsed (input_lines fs paths)).
                    record_key v = Some (JStr h) \<longrightarrow> fingerprint v = JStr h) \<longrightarrow>
                filter (\<lambda>v. fingerprint v = JStr h) out =
                take 1 (filter (\<lambda>v. fingerprint v = JStr h) (parsed (input_lines fs paths)))) \<and>
           (\<forall>rec. record_key (JObj rec) =
                hash_key (if truthy (dict_get rec (ustr ''sha1'')) then dict_get rec (ustr ''sha1'')
                          else dict_get rec (ustr ''id'')))"
proof -
  define ls where "ls = input_lines fs paths"
  from combine_lines_ok[OF assms] obtain seen out
    where run: "combine_lines ({}, []) ls = Inr (seen, out)"
    unfolding ls_def by (metis surj_pair)
  have res: "combine_jsonl fs paths = Inr out"
    using run by (simp add: combine_jsonl_def combine_paths_lines ls_def)
  have pos: "out = nths (parsed ls) (first_positions (parsed ls))"
    using combine_lines_nths[OF run] by (simp add: first_positions_def)
  have flt: "filter (\<lambda>v. record_key v = Some k) out =
             take 1 (filter (\<lambda>v. record_key v = Some k) (parsed ls))" for k
    using combine_lines_filter[OF run, of k] by simp
  have fp: "filter (\<lambda>v. fingerprint v = JStr h) out =
            take 1 (filter (\<lambda>v. fingerprint v = JStr h) (parsed ls))"
    if h: "h \<noteq> []"
      and only: "\<forall>v \<in> set (parsed ls). record_key v = Some (JStr h) \<longrightarrow> fingerprint v = JStr h"
    for h
  proof -
    have sub: "set out \<subseteq> set (parsed ls)" using pos set_nths_subset by metis
    have eq: "(fingerprint v = JStr h) = (record_key v = Some (JStr h))" if "v \<in> set (parsed ls)" for v
      using that only fingerprint_key[OF h] by blast
    have "filter (\<lambda>v. fingerprint v = JStr h) out = filter (\<lambda>v. record_key v = Some (JStr h)) out"
      using sub eq by (intro filter_cong) auto
    moreover have "filter (\<lambda>v. fingerprint v = JStr h) (parsed ls) =
                   filter (\<lambda>v. record_key v = Some (JStr h)) (parsed ls)"
      using eq by (intro filter_cong) auto
    ultimately show ?thesis using flt by simp
  qed
  have key: "record_key (JObj rec) =
               hash_key (if truthy (dict_get rec (ustr ''sha1'')) then dict_get rec (ustr ''sha1'')
                         else dict_get rec (ustr ''id''))" for rec
    by (simp add: dedup_key_def py_or_def)
  from res pos flt fp key show ?thesis unfolding ls_def by blast
qed

theorem combine_jsonl_first_seen_wins_witness:
  "list_all record_line
     (input_lines
        (Map.empty(ustr ''f'' \<mapsto>
             [Value (JObj [(ustr ''id'', JStr (ustr ''a'')), (ustr ''sha1'', JStr (ustr ''h1''))]),
              Value (JObj [(ustr ''id'', JStr (ustr ''b'')), (ustr ''sha1'', JStr (ustr ''h1''))]),
              Value (JObj [(ustr ''id'', JStr (ustr ''c''))])],
           ustr ''w'' \<mapsto>
             [Value (JObj [(ustr ''id'', JStr (ustr ''c''))]), Malformed,
              Value (JObj [(ustr ''id'', JStr (ustr ''d'')), (ustr ''sha1'', JStr (ustr ''h2''))])]))
        [ustr ''f'', ustr ''w'']) \<and>
   combine_jsonl
     (Map.empty(ustr ''f'' \<mapsto>
          [Value (JObj [(ustr ''id'', JStr (ustr ''a'')), (ustr ''sha1'', JStr (ustr ''h1''))]),
           Value (JObj [(ustr ''id'', JStr (ustr ''b'')), (ustr ''sha1'', JStr (ustr ''h1''))]),
           Value (JObj [(ustr ''id'', JStr (ustr ''c''))])],
        ustr ''w'' \<mapsto>
          [Value (JObj [(ustr ''id'', JStr (ustr ''c''))]), Malformed,
           Value (JObj [(ustr ''id'', JStr (ustr ''d'')), (ustr ''sha1'', JStr (ustr ''h2''))])]))
     [ustr ''f'', ustr ''w''] =
   Inr [JObj [(ustr ''id'', JStr (ustr ''a'')), (ustr ''sha1'', JStr (ustr ''h1''))],
        JObj [(ustr ''id'', JStr (ustr ''c''))],
        JObj [(ustr ''id'', JStr (ustr ''d'')), (ustr ''sha1'', JStr (ustr ''h2''))]]"
  using combine_jsonl_first_seen_wins
    [of "Map.empty(ustr ''f'' \<mapsto>
             [Value (JObj [(ustr ''id'', JStr (ustr ''a'')), (ustr ''sha1'', JStr (ustr ''h1''))]),
              Value (JObj [(ustr ''id'', JStr (ustr ''b'')), (ustr ''sha1'', JStr (ustr ''h1''))]),
              Value (JObj [(ustr ''id'', JStr (ustr ''c''))])],
           ustr ''w'' \<mapsto>
             [Value (JObj [(ustr ''id'', JStr (ustr ''c''))]), Malformed,
              Value (JObj [(ustr ''id'', JStr (ustr ''d'')), (ustr ''sha1'', JStr (ustr ''h2''))])])"
        "[ustr ''f'', ustr ''w'']"]
  by (simp add: combine_jsonl_def ustr_def dedup_key_def py_or_def dict_get_def)

text \<open>
  Claim C4 as stated fails: fingerprint and id share one set of keys. Here two records
  share the fingerprint \<open>x\<close>, a record without a fingerprint and with the id \<open>x\<close>
  comes first, and neither of the two is kept.
\<close>

theorem shared_fingerprint_none_kept:
  "fingerprint (JObj [(ustr ''id'', JStr (ustr ''a'')), (ustr ''sha1'', JStr (ustr ''x''))]) = JStr (ustr ''x'') \<and>
   fingerprint (JObj [(ustr ''id'', JStr (ustr ''b'')), (ustr ''sha1'', JStr (ustr ''x''))]) = JStr (ustr ''x'') \<and>
   combine_jsonl
     (Map.empty(ustr ''f'' \<mapsto>
        [Value (JObj [(ustr ''id'', JStr (ustr ''x''))]),
         Value (JObj [(ustr ''id'', JStr (ustr ''a'')), (ustr ''sha1'', JStr (ustr ''x''))]),
         Value (JObj [(ustr ''id'', JStr (ustr ''b'')), (ustr ''sha1'', JStr (ustr ''x''))])]))
     [ustr ''f''] =
   Inr [JObj [(ustr ''id'', JStr (ustr ''x''))]]"
  by (simp add: combine_jsonl_def ustr_def dedup_key_def py_or_def dict_get_def)

text \<open>
  Claim C5: merging a file with an absent or empty one gives what the file alone gives,
  merging a file with itself too, and absent inputs are skipped: the result is that of
  the inputs that exist.
\<close>

theorem combine_jsonl_absent_and_self:
  "(p2 = [] \<or> fs p2 = None \<or> fs p2 = Some [] \<longrightarrow> combine_jsonl fs [p1, p2] = combine_jsonl fs [p1]) \<and>
   combine_jsonl fs [p1, p1] = combine_jsonl fs [p1] \<and>
   combine_jsonl fs paths = combine_jsonl fs (filter (\<lambda>p. p \<noteq> [] \<and> fs p \<noteq> None) paths)"
proof (intro conjI impI)
  assume "p2 = [] \<or> fs p2 = None \<or> fs p2 = Some []"
  then have "input_lines fs [p1, p2] = input_lines fs [p1]" by auto
  then show "combine_jsonl fs [p1, p2] = combine_jsonl fs [p1]"
    by (simp only: combine_jsonl_def combine_paths_lines)
next
  show "combine_jsonl fs [p1, p1] = combine_jsonl fs [p1]"
  proof (cases "p1 = [] \<or> fs p1 = None")
    case True
    then show ?thesis by (auto simp: combine_jsonl_def)
  next
    case False
    then have il: "input_lines fs [p1, p1] = the (fs p1) @ the (fs p1)" "input_lines fs [p1] = the (fs p1)"
      by auto
    show ?thesis
    proof (cases "combine_lines ({}, []) (the (fs p1))")
      case (Inl e)
      then show ?thesis by (simp add: combine_jsonl_def combine_paths_lines il combine_lines_append)
    next
      case (Inr st)
      obtain seen out where st: "st = (seen, out)" by (cases st)
      from combine_lines_again[OF Inr[unfolded st] subset_refl]
      have "combine_lines (seen, out) (the (fs p1)) = Inr (seen, out)" .
      with Inr st show ?thesis
        by (simp add: combine_jsonl_def combine_paths_lines il combine_lines_append)
    qed
  qed
next
  have "input_lines fs paths = input_lines fs (filter (\<lambda>p. p \<noteq> [] \<and> fs p \<noteq> None) paths)"
    by (induction paths) auto
  then show "combine_jsonl fs paths = combine_jsonl fs (filter (\<lambda>p. p \<noteq> [] \<and> fs p \<noteq> None) paths)"
    by (simp only: combine_jsonl_def combine_paths_lines)
qed

theorem combine_jsonl_absent_and_self_witness:
  "(Map.empty(ustr ''f'' \<mapsto>
        [Value (JObj [(ustr ''id'', JStr (ustr ''a'')), (ustr ''sha1'', JStr (ustr ''h1''))]), Blank,
         Value (JObj [(ustr ''id'', JStr (ustr ''b'')), (ustr ''sha1'', JStr (ustr ''h1''))])]))
     (ustr ''w'') = None \<and>
   combine_jsonl
     (Map.empty(ustr ''f'' \<mapsto>
        [Value (JObj [(ustr ''id'', JStr (ustr ''a'')), (ustr ''sha1'', JStr (ustr ''h1''))]), Blank,
         Value (JObj [(ustr ''id'', JStr (ustr ''b'')), (ustr ''sha1'', JStr (ustr ''h1''))])]))
     [ustr ''f'', ustr ''w''] =
   Inr [JObj [(ustr ''id'', JStr (ustr ''a'')), (ustr ''sha1'', JStr (ustr ''h1''))]] \<and>
   combine_jsonl
     (Map.empty(ustr ''f'' \<mapsto>
        [Value (JObj [(ustr ''id'', JStr (ustr ''a'')), (ustr ''sha1'', JStr (ustr ''h1''))]), Blank,
         Value (JObj [(ustr ''id'', JStr (ustr ''b'')), (ustr ''sha1'', JStr (ustr ''h1''))])]))
     [ustr ''f'', ustr ''f''] =
   Inr [JObj [(ustr ''id'', JStr (ustr ''a'')), (ustr ''sha1'', JStr (ustr ''h1''))]]"
  using combine_jsonl_absent_and_self
    [of "ustr ''w''"
        "Map.empty(ustr ''f'' \<mapsto>
          [Value (JObj [(ustr ''id'', JStr (ustr ''a'')), (ustr ''sha1'', JStr (ustr ''h1''))]), Blank,
           Value (JObj [(ustr ''id'', JStr (ustr ''b'')), (ustr ''sha1'', JStr (ustr ''h1''))])])"
        "ustr ''f''" "[]"]
  by (simp add: combine_jsonl_def ustr_def dedup_key_def py_or_def dict_get_def)

section \<open>Empty queries\<close>

text \<open>
  Claim C8: for every \<open>k\<close> and every query that is empty or only whitespace,
  \<open>search_with_query\<close> returns the empty list and calls no external service.
\<close>

theorem empty_query_no_calls:
  "strip query_text = [] \<Longrightarrow>
   search_with_query embeddings_create search query_text k = (Inr [], [])"
  by (simp add: search_with_query_def)

theorem empty_query_no_calls_witness:
  "strip (ustr '' '' @ [9, 10]) = [] \<and>
   search_with_query (\<lambda>q. Inl ServiceError) (\<lambda>v n. Inl ServiceError) (ustr '' '' @ [9, 10]) 5 =
     (Inr [], []) \<and>
   search_with_query (\<lambda>q. Inl ServiceError) (\<lambda>v n. Inl ServiceError) [] 5 = (Inr [], [])"
  using empty_query_no_calls[of "ustr '' '' @ [9, 10]" "\<lambda>q. Inl ServiceError" "\<lambda>v n. Inl ServiceError" 5]
    empty_query_no_calls[of "[]" "\<lambda>q. Inl ServiceError" "\<lambda>v n. Inl ServiceError" 5]
  by (simp add: strip_def is_space_def ustr_def)

section \<open>Records without a vector\<close>

lemma load_line_no_vector:
  assumes "loadable l" and "\<forall>v. l = Value v \<longrightarrow> \<not> has_vector v"
  shows "load_line repr l = Inr None"
proof (cases l)
  case (Value v)
  with assms show ?thesis
    by (cases v) (simp_all add: vector_of_def Let_def)
qed simp_all

lemma load_line_vector:
  assumes "loadable (Value v)" and "has_vector v"
  shows "\<exists>d. load_line repr (Value v) = Inr (Some d)"
proof -
  from assms(2) obtain rec where v: "v = JObj rec" by (cases v) auto
  with assms obtain c where "slice_content (payload_of rec) = Some c" by auto
  with assms(2) v show ?thesis
    by (simp add: vector_of_def payload_of_def Let_def)
qed

lemma load_line_doc:
  assumes "load_line repr (Value (JObj rec)) = Inr (Some d)"
  shows "doc_embedding d = vector_of rec \<and>
         doc_id d = sanitize_id (py_str repr (dict_get_default rec (ustr ''id'') (JStr [])))"
  using assms
  by (auto simp: vector_of_def Let_def split: if_splits option.splits)

lemma load_line_some_iff:
  assumes "loadable l"
  shows "(\<exists>d. load_line repr l = Inr (Some d)) \<longleftrightarrow> (\<exists>v. l = Value v \<and> has_vector v)"
proof (cases "\<exists>v. l = Value v \<and> has_vector v")
  case True
  with assms load_line_vector show ?thesis by blast
next
  case False
  with assms load_line_no_vector[of l repr] show ?thesis by auto
qed

lemma load_lines_docs:
  assumes "list_all loadable ls"
  shows "\<exists>ds. load_lines repr docs ls = Inr (docs @ ds) \<and>
           list_all2 (\<lambda>d v. load_line repr (Value v) = Inr (Some d)) ds
             (filter has_vector (parsed ls))"
  using assms
proof (induction ls arbitrary: docs)
  case Nil
  then show ?case by simp
next
  case (Cons l ls)
  then have l: "loadable l" and rest: "list_all loadable ls" by simp_all
  show ?case
  proof (cases "\<exists>v. l = Value v \<and> has_vector v")
    case True
    then obtain v where v: "l = Value v" "has_vector v" by blast
    with l load_line_vector obtain d where d: "load_line repr (Value v) = Inr (Some d)" by blast
    from Cons.IH[OF rest, of "docs @ [d]"] obtain ds
      where "load_lines repr (docs @ [d]) ls = Inr ((docs @ [d]) @ ds)"
        and "list_all2 (\<lambda>d v. load_line repr (Value v) = Inr (Some d)) ds
               (filter has_vector (parsed ls))"
      by blast
    with v d show ?thesis by (intro exI[of _ "d # ds"]) simp
  next
    case False
    with l have none: "load_line repr l = Inr None" by (intro load_line_no_vector) auto
    from False have "filter has_vector (parsed (l # ls)) = filter has_vector (parsed ls)"
      by (cases l) auto
    with Cons.IH[OF rest, of docs] none show ?thesis by auto
  qed
qed

text \<open>
  Claim C9, as the code has it: when every line is loadable, \<open>load_embedded\<close> returns
  without error; its documents are, in order, those of the lines that parse to a record
  with a non-empty value under \<open>embedding\<close>, \<open>vector\<close> or \<open>content_vector\<close>; every
  other line gives no document. A document carries the record's vector and its
  sanitized id.
\<close>

theorem load_embedded_drops_silently:
  assumes "list_all loadable ls"
  shows "\<exists>docs. load_embedded repr ls = Inr docs \<and>
           list_all2 (\<lambda>d v. load_line repr (Value v) = Inr (Some d)) docs
             (filter has_vector (parsed ls)) \<and>
           (\<forall>l \<in> set ls.
              ((\<exists>d. load_line repr l = Inr (Some d)) \<longleftrightarrow> (\<exists>v. l = Value v \<and> has_vector v)) \<and>
              ((\<forall>v. l = Value v \<longrightarrow> \<not> has_vector v) \<longrightarrow> load_line repr l = Inr None)) \<and>
           (\<forall>rec d. load_line repr (Value (JObj rec)) = Inr (Some d) \<longrightarrow>
              doc_embedding d = vector_of rec \<and>
              doc_id d = sanitize_id (py_str repr (dict_get_default rec (ustr ''id'') (JStr []))))"
proof -
  from load_lines_docs[OF assms, of repr "[]"] obtain docs
    where 1: "load_embedded repr ls = Inr docs"
      and 2: "list_all2 (\<lambda>d v. load_line repr (Value v) = Inr (Some d)) docs
               (filter has_vector (parsed ls))"
    by (auto simp: load_embedded_def)
  have 3: "((\<exists>d. load_line repr l = Inr (Some d)) \<longleftrightarrow> (\<exists>v. l = Value v \<and> has_vector v)) \<and>
           ((\<forall>v. l = Value v \<longrightarrow> \<not> has_vector v) \<longrightarrow> load_line repr l = Inr None)"
    if "l \<in> set ls" for l
  proof -
    from that assms have "loadable l" by (simp add: list_all_iff)
    then show ?thesis using load_line_some_iff load_line_no_vector by blast
  qed
  from 1 2 3 load_line_doc show ?thesis by blast
qed

theorem load_embedded_drops_silently_witness:
  "list_all loadable
     [Value (JObj [(ustr ''id'', JStr (ustr ''a/b#1'')), (ustr ''content'', JStr (ustr ''hi'')),
                   (ustr ''embedding'', JArr [JFloat 1, JFloat 0])]),
      Malformed,
      Value (JObj [(ustr ''id'', JStr (ustr ''c_2'')), (ustr ''text'', JStr (ustr ''yo''))])] \<and>
   load_embedded (\<lambda>v. [])
     [Value (JObj [(ustr ''id'', JStr (ustr ''a/b#1'')), (ustr ''content'', JStr (ustr ''hi'')),
                   (ustr ''embedding'', JArr [JFloat 1, JFloat 0])]),
      Malformed,
      Value (JObj [(ustr ''id'', JStr (ustr ''c_2'')), (ustr ''text'', JStr (ustr ''yo''))])] =
   Inr [\<lparr>doc_id = ustr ''a_b_1'', doc_content = JStr (ustr ''hi''), doc_source = ustr ''local'',
         doc_embedding = JArr [JFloat 1, JFloat 0]\<rparr>]"
  using load_embedded_drops_silently
    [of "[Value (JObj [(ustr ''id'', JStr (ustr ''a/b#1'')), (ustr ''content'', JStr (ustr ''hi'')),
                   (ustr ''embedding'', JArr [JFloat 1, JFloat 0])]),
      Malformed,
      Value (JObj [(ustr ''id'', JStr (ustr ''c_2'')), (ustr ''text'', JStr (ustr ''yo''))])]"
        "\<lambda>v. []"]
  by (simp add: load_embedded_def vector_of_def payload_of_def py_or_def dict_get_def
      dict_get_default_def py_str_def sanitize_id_def allowed_char_def ustr_def Let_def)

text \<open>
  Claim C9 as stated fails: a line that parses to a value that is no dict (here
  \<open>null\<close>) makes \<open>rec.get\<close> raise, and a record with a vector whose content is a number
  makes the cut \<open>[:32766]\<close> raise; neither error is caught.
\<close>

theorem load_embedded_raises:
  "load_embedded (\<lambda>v. []) [Value JNull] = Inl AttributeError \<and>
   load_embedded (\<lambda>v. [])
     [Value (JObj [(ustr ''embedding'', JArr [JFloat 1]), (ustr ''content'', JInt 7)])] =
   Inl TypeError"
  by (simp add: load_embedded_def py_or_def dict_get_def dict_get_default_def ustr_def Let_def)

section \<open>Numbered context entries\<close>

lemma starts_with_append: "starts_with (p @ r) p"
  by (simp add: starts_with_def)

lemma entry_label: "starts_with (entry i body ref) (ustr ''['' @ digits i @ ustr ''] '')"
proof -
  have "entry i body ref =
        (ustr ''['' @ digits i @ ustr ''] '') @
        (join (ustr '' '') (split_ws body) @ [10] @ ustr ''(Source: '' @ ref @ ustr '')'')"
    by (simp add: entry_def)
  then show ?thesis by (simp only: starts_with_append)
qed

lemma entry_body:
  "starts_with (entry i body ref)
     (ustr ''['' @ digits i @ ustr ''] '' @ join (ustr '' '') (split_ws body) @ [10] @
      ustr ''(Source: '')"
proof -
  have "entry i body ref =
        (ustr ''['' @ digits i @ ustr ''] '' @ join (ustr '' '') (split_ws body) @ [10] @
         ustr ''(Source: '') @ (ref @ ustr '')'')"
    by (simp add: entry_def)
  then show ?thesis by (simp only: starts_with_append)
qed

text \<open>\<open>_txt\<close> returns the first non-empty value under the four keys, and an empty
  string when there is none.\<close>

lemma txt_of_first_text: "txt_of d = first_text (JObj d)"
  by (simp add: txt_of_def first_text_def)

lemma has_text_txt_of: "has_text (JObj d) = truthy (txt_of d)"
  by (simp add: txt_of_def)

lemma context_line_skip:
  assumes "context_doc d" and "\<not> has_text d"
  shows "context_line repr lower stem_title i d = Inr None"
proof (cases d)
  case (JObj kv)
  with assms(2) have "\<not> truthy (txt_of kv)" by (simp add: txt_of_def)
  with JObj show ?thesis by simp
qed (use assms in simp_all)

lemma context_line_entry:
  assumes "context_doc d" and "has_text d"
  shows "\<exists>l body. context_line repr lower stem_title i d = Inr (Some l) \<and>
             starts_with l (ustr ''['' @ digits i @ ustr ''] '') \<and>
             first_text d = JStr body \<and>
             starts_with l (ustr ''['' @ digits i @ ustr ''] '' @
                            join (ustr '' '') (split_ws body) @ [10] @ ustr ''(Source: '')"
proof -
  from assms(2) obtain kv where d: "d = JObj kv" by (cases d) auto
  from assms d have "is_str (first_text (JObj kv))"
    and "is_str (dict_get_default kv (ustr ''source'') (JStr []))"
    by auto
  then obtain body src where b: "first_text (JObj kv) = JStr body"
    and s: "dict_get_default kv (ustr ''source'') (JStr []) = JStr src"
    by (cases "first_text (JObj kv)"; cases "dict_get_default kv (ustr ''source'') (JStr [])") auto
  from b have t: "txt_of kv = JStr body" by (simp only: txt_of_first_text)
  from assms(2) d have tr: "truthy (txt_of kv)" by (auto simp: txt_of_def)
  have cl: "context_line repr lower stem_title i d =
        Inr (Some (entry i body (source_ref repr lower stem_title i kv src)))"
    using d tr t s by simp
  show ?thesis
  proof (intro exI conjI)
    show "context_line repr lower stem_title i d =
          Inr (Some (entry i body (source_ref repr lower stem_title i kv src)))"
      by (rule cl)
    show "starts_with (entry i body (source_ref repr lower stem_title i kv src))
            (ustr ''['' @ digits i @ ustr ''] '')"
      by (rule entry_label)
    show "first_text d = JStr body" using b d by simp
    show "starts_with (entry i body (source_ref repr lower stem_title i kv src))
            (ustr ''['' @ digits i @ ustr ''] '' @ join (ustr '' '') (split_ws body) @ [10] @
             ustr ''(Source: '')"
      by (rule entry_body)
  qed
qed

lemma context_lines_entries:
  assumes "list_all (\<lambda>p. context_doc (snd p)) ps"
  shows "\<exists>ls. context_lines repr lower stem_title lines0 ps = Inr (lines0 @ ls) \<and>
           list_all2 (\<lambda>l p. context_line repr lower stem_title (fst p) (snd p) = Inr (Some l) \<and>
                            starts_with l (ustr ''['' @ digits (fst p) @ ustr ''] '') \<and>
                            (\<exists>body. first_text (snd p) = JStr body \<and>
                               starts_with l (ustr ''['' @ digits (fst p) @ ustr ''] '' @
                                 join (ustr '' '') (split_ws body) @ [10] @ ustr ''(Source: '')))
             ls (filter (\<lambda>p. has_text (snd p)) ps)"
  using assms
proof (induction ps arbitrary: lines0)
  case Nil
  then show ?case by simp
next
  case (Cons p ps)
  obtain i d where p: "p = (i, d)" by (cases p)
  from Cons.prems p have d: "context_doc d" and rest: "list_all (\<lambda>p. context_doc (snd p)) ps"
    by simp_all
  show ?case
  proof (cases "has_text d")
    case True
    from context_line_entry[OF d True, of repr lower stem_title i] obtain l body
      where l: "context_line repr lower stem_title i d = Inr (Some l)"
        "starts_with l (ustr ''['' @ digits i @ ustr ''] '')"
        "first_text d = JStr body"
        "starts_with l (ustr ''['' @ digits i @ ustr ''] '' @
                        join (ustr '' '') (split_ws body) @ [10] @ ustr ''(Source: '')"
      by blast
    from Cons.IH[OF rest, of "lines0 @ [l]"] obtain ls
      where "context_lines repr lower stem_title (lines0 @ [l]) ps = Inr ((lines0 @ [l]) @ ls)"
        and "list_all2 (\<lambda>l p. context_line repr lower stem_title (fst p) (snd p) = Inr (Some l) \<and>
                            starts_with l (ustr ''['' @ digits (fst p) @ ustr ''] '') \<and>
                            (\<exists>body. first_text (snd p) = JStr body \<and>
                               starts_with l (ustr ''['' @ digits (fst p) @ ustr ''] '' @
                                 join (ustr '' '') (split_ws body) @ [10] @ ustr ''(Source: '')))
               ls (filter (\<lambda>p. has_text (snd p)) ps)"
      by blast
    with l p True show ?thesis by (intro exI[of _ "l # ls"]) simp
  next
    case False
    with context_line_skip[OF d False, of repr lower stem_title i] Cons.IH[OF rest, of lines0] p
    show ?thesis by auto
  qed
qed

lemma list_all2_right_set:
  "list_all2 P xs ys \<Longrightarrow> (\<And>y. y \<in> set ys \<Longrightarrow> Q y) \<Longrightarrow> list_all2 (\<lambda>x y. P x y \<and> Q y) xs ys"
  by (induction rule: list_all2_induct) auto

lemma enumerate_labels_increasing:
  "sorted_wrt (<) (map fst (filter P (enumerate n xs)))"
proof -
  have "sorted_wrt (<) (map fst (enumerate n xs))"
    by (simp add: map_fst_enumerate)
  then have "sorted_wrt (\<lambda>a b. fst a < fst b) (enumerate n xs)"
    by (simp only: sorted_wrt_map)
  then have "sorted_wrt (\<lambda>a b. fst a < fst b) (filter P (enumerate n xs))"
    by (rule sorted_wrt_filter)
  then show ?thesis by (simp add: sorted_wrt_map)
qed

text \<open>
  Claim C10: for a list of retrieved documents (dicts whose text and source are
  strings), \<open>build_context\<close> joins one entry for each document that has text, in input
  order. A document has text when its value under one of the keys \<open>text\<close>, \<open>content\<close>,
  \<open>chunk\<close>, \<open>page_content\<close> is not empty. The entry of a document starts with \<open>[i]\<close>,
  where \<open>i\<close> is the 1-based position of the document in the input list, followed by
  the words of the first non-empty of these values. A document whose text is empty
  under all four keys gives no entry and keeps its number, so the labels are strictly
  increasing and may skip numbers.
\<close>

theorem build_context_labels:
  assumes "list_all context_doc docs"
  shows "\<exists>lines. build_context repr lower stem_title docs = Inr (join [10, 10] lines) \<and>
           list_all2
             (\<lambda>l p. context_line repr lower stem_title (fst p) (snd p) = Inr (Some l) \<and>
                     starts_with l (ustr ''['' @ digits (fst p) @ ustr ''] '') \<and>
                     (\<exists>body. first_text (snd p) = JStr body \<and>
                        starts_with l (ustr ''['' @ digits (fst p) @ ustr ''] '' @
                          join (ustr '' '') (split_ws body) @ [10] @ ustr ''(Source: '')) \<and>
                     1 \<le> fst p \<and> fst p \<le> length docs \<and> docs ! (fst p - 1) = snd p)
             lines (filter (\<lambda>p. has_text (snd p)) (enumerate 1 docs)) \<and>
           sorted_wrt (<) (map fst (filter (\<lambda>p. has_text (snd p)) (enumerate 1 docs))) \<and>
           (\<forall>p \<in> set (enumerate 1 docs). \<not> has_text (snd p) \<longrightarrow>
               context_line repr lower stem_title (fst p) (snd p) = Inr None) \<and>
           (\<forall>d. has_text (JObj d) \<longleftrightarrow>
               truthy (dict_get d (ustr ''text'')) \<or> truthy (dict_get d (ustr ''content'')) \<or>
               truthy (dict_get d (ustr ''chunk'')) \<or> truthy (dict_get d (ustr ''page_content'')))"
proof -
  have all: "list_all (\<lambda>p. context_doc (snd p)) (enumerate 1 docs)"
    using assms by (auto simp: list_all_iff in_set_enumerate_eq)
  from context_lines_entries[OF all, of repr lower stem_title "[]"] obtain ls
    where run: "context_lines repr lower stem_title [] (enumerate 1 docs) = Inr ls"
      and ent: "list_all2 (\<lambda>l p. context_line repr lower stem_title (fst p) (snd p) = Inr (Some l) \<and>
                            starts_with l (ustr ''['' @ digits (fst p) @ ustr ''] '') \<and>
                            (\<exists>body. first_text (snd p) = JStr body \<and>
                               starts_with l (ustr ''['' @ digits (fst p) @ ustr ''] '' @
                                 join (ustr '' '') (split_ws body) @ [10] @ ustr ''(Source: '')))
               ls (filter (\<lambda>p. has_text (snd p)) (enumerate 1 docs))"
    by auto
  have pos: "1 \<le> fst p \<and> fst p \<le> length docs \<and> docs ! (fst p - 1) = snd p"
    if "p \<in> set (filter (\<lambda>p. has_text (snd p)) (enumerate 1 docs))" for p
    using that by (auto simp: in_set_enumerate_eq)
  have ent': "list_all2
             (\<lambda>l p. (context_line repr lower stem_title (fst p) (snd p) = Inr (Some l) \<and>
                     starts_with l (ustr ''['' @ digits (fst p) @ ustr ''] '') \<and>
                     (\<exists>body. first_text (snd p) = JStr body \<and>
                        starts_with l (ustr ''['' @ digits (fst p) @ ustr ''] '' @
                          join (ustr '' '') (split_ws body) @ [10] @ ustr ''(Source: ''))) \<and>
                     (1 \<le> fst p \<and> fst p \<le> length docs \<and> docs ! (fst p - 1) = snd p))
             ls (filter (\<lambda>p. has_text (snd p)) (enumerate 1 docs))"
    using list_all2_right_set[OF ent, of "\<lambda>p. 1 \<le> fst p \<and> fst p \<le> length docs \<and> docs ! (fst p - 1) = snd p"] pos
    by blast
  have skip: "context_line repr lower stem_title (fst p) (snd p) = Inr None"
    if "p \<in> set (enumerate 1 docs)" "\<not> has_text (snd p)" for p
  proof -
    from that(1) all have "context_doc (snd p)" by (simp add: list_all_iff)
    from this that(2) show ?thesis by (rule context_line_skip)
  qed
  have res: "build_context repr lower stem_title docs = Inr (join [10, 10] ls)"
    using run by (simp add: build_context_def)
  have keys: "has_text (JObj d) \<longleftrightarrow>
               truthy (dict_get d (ustr ''text'')) \<or> truthy (dict_get d (ustr ''content'')) \<or>
               truthy (dict_get d (ustr ''chunk'')) \<or> truthy (dict_get d (ustr ''page_content''))"
    for d by simp
  from res ent' enumerate_labels_increasing skip keys show ?thesis
    by (intro exI[of _ ls]) (simp add: conj_assoc)
qed

theorem build_context_labels_witness:
  "list_all context_doc
     [JObj [(ustr ''text'', JStr (ustr ''a  b'')), (ustr ''content'', JStr (ustr ''zz'')),
            (ustr ''source'', JStr (ustr ''x.pdf'')), (ustr ''title'', JStr (ustr ''X''))],
      JObj [(ustr ''text'', JStr []), (ustr ''content'', JStr []), (ustr ''chunk'', JStr []),
            (ustr ''page_content'', JStr []), (ustr ''source'', JStr (ustr ''y.pdf''))],
      JObj [(ustr ''chunk'', JStr (ustr ''c''))],
      JObj [(ustr ''content'', JStr []), (ustr ''page_content'', JStr (ustr ''d e''))]] \<and>
   build_context (\<lambda>v. []) (\<lambda>s. s) (\<lambda>s. s)
     [JObj [(ustr ''text'', JStr (ustr ''a  b'')), (ustr ''content'', JStr (ustr ''zz'')),
            (ustr ''source'', JStr (ustr ''x.pdf'')), (ustr ''title'', JStr (ustr ''X''))],
      JObj [(ustr ''text'', JStr []), (ustr ''content'', JStr []), (ustr ''chunk'', JStr []),
            (ustr ''page_content'', JStr []), (ustr ''source'', JStr (ustr ''y.pdf''))],
      JObj [(ustr ''chunk'', JStr (ustr ''c''))],
      JObj [(ustr ''content'', JStr []), (ustr ''page_content'', JStr (ustr ''d e''))]] =
   Inr (ustr ''[1] a b'' @ [10] @ ustr ''(Source: X)'' @ [10, 10] @
        ustr ''[3] c'' @ [10] @ ustr ''(Source: Source 3)'' @ [10, 10] @
        ustr ''[4] d e'' @ [10] @ ustr ''(Source: Source 4)'')"
proof -
  have ok: "list_all context_doc
     [JObj [(ustr ''text'', JStr (ustr ''a  b'')), (ustr ''content'', JStr (ustr ''zz'')),
            (ustr ''source'', JStr (ustr ''x.pdf'')), (ustr ''title'', JStr (ustr ''X''))],
      JObj [(ustr ''text'', JStr []), (ustr ''content'', JStr []), (ustr ''chunk'', JStr []),
            (ustr ''page_content'', JStr []), (ustr ''source'', JStr (ustr ''y.pdf''))],
      JObj [(ustr ''chunk'', JStr (ustr ''c''))],
      JObj [(ustr ''content'', JStr []), (ustr ''page_content'', JStr (ustr ''d e''))]]"
    by (simp add: first_text_def dict_get_def dict_get_default_def ustr_def)
  have val: "build_context (\<lambda>v. []) (\<lambda>s. s) (\<lambda>s. s)
     [JObj [(ustr ''text'', JStr (ustr ''a  b'')), (ustr ''content'', JStr (ustr ''zz'')),
            (ustr ''source'', JStr (ustr ''x.pdf'')), (ustr ''title'', JStr (ustr ''X''))],
      JObj [(ustr ''text'', JStr []), (ustr ''content'', JStr []), (ustr ''chunk'', JStr []),
            (ustr ''page_content'', JStr []), (ustr ''source'', JStr (ustr ''y.pdf''))],
      JObj [(ustr ''chunk'', JStr (ustr ''c''))],
      JObj [(ustr ''content'', JStr []), (ustr ''page_content'', JStr (ustr ''d e''))]] =
   Inr (ustr ''[1] a b'' @ [10] @ ustr ''(Source: X)'' @ [10, 10] @
        ustr ''[3] c'' @ [10] @ ustr ''(Source: Source 3)'' @ [10, 10] @
        ustr ''[4] d e'' @ [10] @ ustr ''(Source: Source 4)'')"
    by (simp add: build_context_def txt_of_def dict_get_def dict_get_default_def py_or_def
        py_str_def entry_def source_ref_def split_ws_def is_space_def starts_with_def digits.simps
        ustr_def Let_def)
  from build_context_labels[OF ok, of "\<lambda>v. []" "\<lambda>s. s" "\<lambda>s. s"] ok val
  show ?thesis by simp
qed

section \<open>Batches sent to the embedding service\<close>

lemma consecutive_batches_Nil: "consecutive_batches B [] = []"
  by (simp add: consecutive_batches.simps)

lemma consecutive_batches_short:
  assumes "xs \<noteq> []" and "length xs \<le> B"
  shows "consecutive_batches B xs = [xs]"
proof -
  from assms have "0 < B" by (cases xs) auto
  with assms show ?thesis
    by (subst consecutive_batches.simps) (simp add: consecutive_batches_Nil)
qed

lemma consecutive_batches_full:
  "0 < B \<Longrightarrow> length b = B \<Longrightarrow> consecutive_batches B (b @ xs) = b # consecutive_batches B xs"
  by (subst consecutive_batches.simps) auto

lemma concat_consecutive_batches:
  "0 < B \<Longrightarrow> concat (consecutive_batches B xs) = xs"
proof (induction B xs rule: consecutive_batches.induct)
  case (1 B xs)
  then show ?case by (subst consecutive_batches.simps) auto
qed

lemma length_consecutive_batches:
  "0 < B \<Longrightarrow> map length (consecutive_batches B xs) =
     replicate (length xs div B) B @ (if length xs mod B = 0 then [] else [length xs mod B])"
proof (induction B xs rule: consecutive_batches.induct)
  case (1 B xs)
  show ?case
  proof (cases "xs = []")
    case True
    then show ?thesis by (simp add: consecutive_batches_Nil)
  next
    case False
    show ?thesis
    proof (cases "length xs < B")
      case True
      with False show ?thesis by (simp add: consecutive_batches_short)
    next
      case ge: False
      then have d: "length xs div B = Suc ((length xs - B) div B)"
        and m: "length xs mod B = (length xs - B) mod B"
        using 1(2) by (simp_all add: le_div_geq le_mod_geq)
      have "map length (consecutive_batches B xs) =
            B # map length (consecutive_batches B (drop B xs))"
        using False 1(2) ge by (subst consecutive_batches.simps) (simp add: min_def)
      also have "map length (consecutive_batches B (drop B xs)) =
            replicate ((length xs - B) div B) B @
            (if (length xs - B) mod B = 0 then [] else [(length xs - B) mod B])"
        using 1(1) False 1(2) by simp
      finally show ?thesis by (simp add: d m)
    qed
  qed
qed


text \<open>
  A flush does nothing on an empty batch and otherwise sends it in one call. The loop
  keeps fewer than \<open>B\<close> pending records, so what it has sent and written after the
  last flush is given by the consecutive batches of the pending records followed by the
  records still to be read.
\<close>

lemma flush_batch_empty:
  "batch_texts st = [] \<Longrightarrow> flush_batch embeddings_create st = Inr st"
  by (simp add: flush_batch_def)

lemma flush_batch_sent:
  assumes "batch_texts st \<noteq> []" and "embeddings_create (batch_texts st) = Inr data"
  shows "flush_batch embeddings_create st =
         Inr \<lparr>batch_texts = [], batch_recs = [],
              fout = fout st @ map (\<lambda>(rec, item). attach rec item) (zip (batch_recs st) data),
              calls = calls st @ [batch_texts st]\<rparr>"
  using assms by (simp add: flush_batch_def)

lemma embed_lines_batches:
  assumes B: "0 < B"
    and contract: "\<forall>ts. ts \<noteq> [] \<longrightarrow> (\<exists>vs. embeddings_create ts = Inr vs \<and> length vs = length ts)"
    and lines: "list_all embeddable ls"
    and pend: "batch_recs st = pend" "batch_texts st = map text_of pend" "int (length pend) < B"
  shows "\<exists>st' st'' vss.
           embed_lines embeddings_create B st ls = Inr st' \<and>
           flush_batch embeddings_create st' = Inr st'' \<and>
           list_all2 (\<lambda>b vs. embeddings_create (map text_of b) = Inr vs \<and> length vs = length b)
             (consecutive_batches (nat B) (pend @ text_records ls)) vss \<and>
           fout st'' = fout st @
             concat (map (\<lambda>(b, vs). map (\<lambda>(rec, item). attach rec item) (zip b vs))
                         (zip (consecutive_batches (nat B) (pend @ text_records ls)) vss)) \<and>
           calls st'' = calls st @
             map (map text_of) (consecutive_batches (nat B) (pend @ text_records ls))"
  using lines pend
proof (induction ls arbitrary: st pend)
  case Nil
  show ?case
  proof (cases "pend = []")
    case True
    with Nil show ?thesis
      by (intro exI[of _ st] exI[of _ "[]"]) (simp add: flush_batch_empty consecutive_batches_Nil)
  next
    case False
    with Nil have ne: "batch_texts st \<noteq> []" by simp
    with contract obtain vs where vs: "embeddings_create (batch_texts st) = Inr vs"
      "length vs = length (batch_texts st)" by blast
    from False Nil(4) have cb: "consecutive_batches (nat B) pend = [pend]"
      by (intro consecutive_batches_short) auto
    define st2 where "st2 = \<lparr>batch_texts = [], batch_recs = [],
              fout = fout st @ map (\<lambda>(rec, item). attach rec item) (zip (batch_recs st) vs),
              calls = calls st @ [batch_texts st]\<rparr>"
    have "flush_batch embeddings_create st = Inr st2"
      using flush_batch_sent[where embeddings_create = embeddings_create, OF ne vs(1)]
      by (simp add: st2_def)
    with vs Nil cb show ?thesis
      by (intro exI[of _ st] exI[of _ st2] exI[of _ "[vs]"]) (simp add: st2_def)
  qed
next
  case (Cons l ls)
  then have l: "embeddable l" and rest: "list_all embeddable ls" by simp_all
  note IH = Cons.IH[OF rest]
  show ?case
  proof (cases "\<exists>rec. l = Value (JObj rec) \<and> truthy (text_of rec)")
    case False
    with l have "embed_line embeddings_create B st l = Inr st"
      by (cases "(embeddings_create, B, st, l)" rule: embed_line.cases)
         (auto simp: text_of_def Let_def)
    moreover from False l have "text_records (l # ls) = text_records ls"
      by (cases "l # ls" rule: text_records.cases) auto
    ultimately show ?thesis using IH[OF Cons.prems(2,3,4)] by simp
  next
    case True
    then obtain rec where rec: "l = Value (JObj rec)" "truthy (text_of rec)" by blast
    define st1 where "st1 = st\<lparr>batch_texts := batch_texts st @ [text_of rec],
                                batch_recs := batch_recs st @ [rec]\<rparr>"
    have st1: "batch_recs st1 = pend @ [rec]" "batch_texts st1 = map text_of (pend @ [rec])"
      "fout st1 = fout st" "calls st1 = calls st"
      using Cons.prems by (simp_all add: st1_def)
    have tr: "pend @ text_records (l # ls) = (pend @ [rec]) @ text_records ls"
      using rec by simp
    show ?thesis
    proof (cases "int (length (pend @ [rec])) < B")
      case True
      have step: "embed_line embeddings_create B st l = Inr st1"
        using rec True Cons.prems by (simp add: text_of_def Let_def st1_def)
      from IH[OF st1(1,2) True] step st1(3,4) show ?thesis
        unfolding tr by simp
    next
      case False
      with Cons.prems(4) have full: "length (pend @ [rec]) = nat B" by simp
      have ne: "batch_texts st1 \<noteq> []" using st1 by simp
      with contract obtain vs where vs: "embeddings_create (batch_texts st1) = Inr vs"
        "length vs = length (batch_texts st1)" by blast
      define st2 where "st2 = \<lparr>batch_texts = [], batch_recs = [],
              fout = fout st1 @ map (\<lambda>(rec, item). attach rec item) (zip (batch_recs st1) vs),
              calls = calls st1 @ [batch_texts st1]\<rparr>"
      have step: "embed_line embeddings_create B st l = Inr st2"
        using rec False Cons.prems flush_batch_sent[where embeddings_create = embeddings_create, OF ne vs(1)]
        by (simp add: text_of_def Let_def st1_def st2_def)
      have p2: "batch_recs st2 = []" "batch_texts st2 = map text_of []" "int (length ([]::pydict list)) < B"
        using B by (simp_all add: st2_def)
      from IH[OF p2] obtain st' st'' vss where
        run: "embed_lines embeddings_create B st2 ls = Inr st'"
          "flush_batch embeddings_create st' = Inr st''"
        and l2: "list_all2 (\<lambda>b vs. embeddings_create (map text_of b) = Inr vs \<and> length vs = length b)
             (consecutive_batches (nat B) (text_records ls)) vss"
        and out: "fout st'' = fout st2 @
             concat (map (\<lambda>(b, vs). map (\<lambda>(rec, item). attach rec item) (zip b vs))
                         (zip (consecutive_batches (nat B) (text_records ls)) vss))"
        and cl: "calls st'' = calls st2 @ map (map text_of) (consecutive_batches (nat B) (text_records ls))"
        by auto
      have cb: "consecutive_batches (nat B) ((pend @ [rec]) @ text_records ls) =
                (pend @ [rec]) # consecutive_batches (nat B) (text_records ls)"
        using B full by (intro consecutive_batches_full) auto
      show ?thesis
        unfolding tr cb
        using step run l2 out cl vs st1
        by (intro exI[of _ st'] exI[of _ st''] exI[of _ "vs # vss"]) (simp add: st2_def)
    qed
  qed
qed

lemma concat_zip_batches:
  "list_all2 (\<lambda>b vs. P b vs \<and> length vs = length b) bs vss \<Longrightarrow>
   concat (map (\<lambda>(b, vs). map f (zip b vs)) (zip bs vss)) = map f (zip (concat bs) (concat vss)) \<and>
   length (concat vss) = length (concat bs)"
  by (induction rule: list_all2_induct) simp_all

lemma ceil_div_nat:
  fixes n B :: nat
  assumes "0 < B"
  shows "(n + B - 1) div B = n div B + (if n mod B = 0 then 0 else 1)"
proof -
  have "n + B - 1 = (n div B) * B + (n mod B + B - 1)"
    using assms by (simp add: algebra_simps)
  then have "(n + B - 1) div B = n div B + (n mod B + B - 1) div B"
    using assms by (metis div_mult_self3 less_numeral_extra(3))
  moreover have "(n mod B + B - 1) div B = (if n mod B = 0 then 0 else 1)"
  proof (cases "n mod B = 0")
    case True
    with assms show ?thesis by simp
  next
    case False
    then have "n mod B + B - 1 = B + (n mod B - 1)" by simp
    moreover have "n mod B - 1 < B" using assms by (simp add: less_imp_diff_less)
    ultimately show ?thesis using False assms by (simp add: le_div_geq)
  qed
  ultimately show ?thesis by simp
qed

lemma attach_has_embedding:
  "\<exists>kv. attach rec v = JObj kv \<and> map_of kv (ustr ''embedding'') \<noteq> None"
  by (simp add: attach_def Let_def update_conv' delete_conv' ustr_def)

text \<open>
  What a written record holds: the vector under \<open>embedding\<close>, as a list of floats,
  its length under \<open>embedding_dim\<close>, the text under \<open>content\<close> when the record had
  no \<open>content\<close>, and every other field but \<open>text\<close> as it was.
\<close>

lemma attach_fields:
  "\<exists>kv. attach rec v = JObj kv \<and>
        map_of kv (ustr ''embedding'') = Some (JArr (map JFloat v)) \<and>
        map_of kv (ustr ''embedding_dim'') = Some (JInt (int (length v))) \<and>
        dict_get kv (ustr ''content'') =
          (if map_of rec (ustr ''content'') = None then dict_get rec (ustr ''text'')
           else dict_get rec (ustr ''content'')) \<and>
        (\<forall>k. k \<noteq> ustr ''embedding'' \<and> k \<noteq> ustr ''embedding_dim'' \<and>
             k \<noteq> ustr ''content'' \<and> k \<noteq> ustr ''text'' \<longrightarrow> map_of kv k = map_of rec k)"
  by (auto simp: attach_def Let_def update_conv' delete_conv' dict_get_def ustr_def
      split: option.splits)

text \<open>
  Claim C7: with a positive batch size \<open>B\<close>, an input whose lines are blank or records,
  and a service that returns one vector for each text, \<open>build_embeddings\<close> sends the
  records that have text in consecutive batches of size \<open>B\<close>, the last one possibly
  smaller, in \<open>ceil(n/B)\<close> calls; the output has one line for each such record, in input
  order, the record paired with the vector at its position: the value under
  \<open>embedding\<close> is that vector, as a list of floats, \<open>embedding_dim\<close> is its length,
  the text is under \<open>content\<close>, and the other fields are kept. Records without text
  are not sent and not written.
\<close>

theorem build_embeddings_batches:
  assumes "B = (case batch_size of None \<Rightarrow> env_batch | Some b \<Rightarrow> if b \<noteq> 0 then b else env_batch)"
    and "0 < B"
    and "list_all embeddable ls"
    and "\<forall>ts. ts \<noteq> [] \<longrightarrow> (\<exists>vs. embeddings_create ts = Inr vs \<and> length vs = length ts)"
  shows "\<exists>out calls vss.
           build_embeddings embeddings_create batch_size env_batch ls = Inr (out, calls) \<and>
           calls = map (map text_of) (consecutive_batches (nat B) (text_records ls)) \<and>
           concat (consecutive_batches (nat B) (text_records ls)) = text_records ls \<and>
           map length calls =
             replicate (length (text_records ls) div nat B) (nat B) @
             (if length (text_records ls) mod nat B = 0 then []
              else [length (text_records ls) mod nat B]) \<and>
           length calls = (length (text_records ls) + nat B - 1) div nat B \<and>
           list_all2 (\<lambda>b vs. embeddings_create (map text_of b) = Inr vs \<and> length vs = length b)
             (consecutive_batches (nat B) (text_records ls)) vss \<and>
           out = map (\<lambda>(rec, item). attach rec item) (zip (text_records ls) (concat vss)) \<and>
           length out = length (text_records ls) \<and>
           list_all (\<lambda>v. \<exists>kv. v = JObj kv \<and> map_of kv (ustr ''embedding'') \<noteq> None) out \<and>
           list_all2
             (\<lambda>v p. \<exists>kv. v = JObj kv \<and>
                 map_of kv (ustr ''embedding'') = Some (JArr (map JFloat (snd p))) \<and>
                 map_of kv (ustr ''embedding_dim'') = Some (JInt (int (length (snd p)))) \<and>
                 dict_get kv (ustr ''content'') =
                   (if map_of (fst p) (ustr ''content'') = None then dict_get (fst p) (ustr ''text'')
                    else dict_get (fst p) (ustr ''content'')) \<and>
                 (\<forall>k. k \<noteq> ustr ''embedding'' \<and> k \<noteq> ustr ''embedding_dim'' \<and>
                      k \<noteq> ustr ''content'' \<and> k \<noteq> ustr ''text'' \<longrightarrow>
                      map_of kv k = map_of (fst p) k))
             out (zip (text_records ls) (concat vss))"
proof -
  define st0 where "st0 = \<lparr>batch_texts = [], batch_recs = [], fout = [], calls = []\<rparr>"
  define bs where "bs = consecutive_batches (nat B) (text_records ls)"
  have nB: "0 < nat B" using assms(2) by simp
  have p0: "batch_recs st0 = []" "batch_texts st0 = map text_of []" "int (length ([]::pydict list)) < B"
    using assms(2) by (simp_all add: st0_def)
  from embed_lines_batches[OF assms(2) assms(4) assms(3) p0]
  obtain st' st'' vss where
    run: "embed_lines embeddings_create B st0 ls = Inr st'"
      "flush_batch embeddings_create st' = Inr st''"
    and l2: "list_all2 (\<lambda>b vs. embeddings_create (map text_of b) = Inr vs \<and> length vs = length b) bs vss"
    and out: "fout st'' =
             concat (map (\<lambda>(b, vs). map (\<lambda>(rec, item). attach rec item) (zip b vs)) (zip bs vss))"
    and cl: "calls st'' = map (map text_of) bs"
    unfolding bs_def by (auto simp: st0_def)
  have res: "build_embeddings embeddings_create batch_size env_batch ls = Inr (fout st'', calls st'')"
    using run assms(1) by (simp add: build_embeddings_def st0_def)
  have cc: "concat bs = text_records ls"
    unfolding bs_def using nB by (rule concat_consecutive_batches)
  from concat_zip_batches[OF l2, of "\<lambda>(rec, item). attach rec item"] out cc
  have out': "fout st'' = map (\<lambda>(rec, item). attach rec item) (zip (text_records ls) (concat vss))"
    and len: "length (concat vss) = length (text_records ls)"
    by simp_all
  have ml: "map length (calls st'') =
             replicate (length (text_records ls) div nat B) (nat B) @
             (if length (text_records ls) mod nat B = 0 then []
              else [length (text_records ls) mod nat B])"
    using length_consecutive_batches[OF nB, of "text_records ls"] cl
    by (simp add: bs_def comp_def)
  have lc: "length (calls st'') = (length (text_records ls) + nat B - 1) div nat B"
  proof -
    have "length (calls st'') = length (map length (calls st''))" by simp
    also have "\<dots> = length (text_records ls) div nat B +
                     (if length (text_records ls) mod nat B = 0 then 0 else 1)"
      unfolding ml by simp
    finally show ?thesis using ceil_div_nat[OF nB] by simp
  qed
  have emb: "list_all (\<lambda>v. \<exists>kv. v = JObj kv \<and> map_of kv (ustr ''embedding'') \<noteq> None) (fout st'')"
    unfolding out' list_all_iff using attach_has_embedding by auto
  have lo: "length (fout st'') = length (text_records ls)"
    using out' len by simp
  have fields: "list_all2
             (\<lambda>v p. \<exists>kv. v = JObj kv \<and>
                 map_of kv (ustr ''embedding'') = Some (JArr (map JFloat (snd p))) \<and>
                 map_of kv (ustr ''embedding_dim'') = Some (JInt (int (length (snd p)))) \<and>
                 dict_get kv (ustr ''content'') =
                   (if map_of (fst p) (ustr ''content'') = None then dict_get (fst p) (ustr ''text'')
                    else dict_get (fst p) (ustr ''content'')) \<and>
                 (\<forall>k. k \<noteq> ustr ''embedding'' \<and> k \<noteq> ustr ''embedding_dim'' \<and>
                      k \<noteq> ustr ''content'' \<and> k \<noteq> ustr ''text'' \<longrightarrow>
                      map_of kv k = map_of (fst p) k))
             (fout st'') (zip (text_records ls) (concat vss))"
    unfolding out' list_all2_map1 list_all2_same
  proof
    fix p assume "p \<in> set (zip (text_records ls) (concat vss))"
    obtain rec v where p: "p = (rec, v)" by (cases p)
    from attach_fields[of rec v]
    show "\<exists>kv. (case p of (rec, item) \<Rightarrow> attach rec item) = JObj kv \<and>
                 map_of kv (ustr ''embedding'') = Some (JArr (map JFloat (snd p))) \<and>
                 map_of kv (ustr ''embedding_dim'') = Some (JInt (int (length (snd p)))) \<and>
                 dict_get kv (ustr ''content'') =
                   (if map_of (fst p) (ustr ''content'') = None then dict_get (fst p) (ustr ''text'')
                    else dict_get (fst p) (ustr ''content'')) \<and>
                 (\<forall>k. k \<noteq> ustr ''embedding'' \<and> k \<noteq> ustr ''embedding_dim'' \<and>
                      k \<noteq> ustr ''content'' \<and> k \<noteq> ustr ''text'' \<longrightarrow>
                      map_of kv k = map_of (fst p) k)"
      unfolding p by (simp only: prod.case fst_conv snd_conv)
  qed
  show ?thesis
  proof (intro exI conjI)
    show "build_embeddings embeddings_create batch_size env_batch ls = Inr (fout st'', calls st'')"
      by (rule res)
    show "calls st'' = map (map text_of) (consecutive_batches (nat B) (text_records ls))"
      using cl by (simp add: bs_def)
    show "concat (consecutive_batches (nat B) (text_records ls)) = text_records ls"
      using cc by (simp add: bs_def)
    show "map length (calls st'') =
             replicate (length (text_records ls) div nat B) (nat B) @
             (if length (text_records ls) mod nat B = 0 then []
              else [length (text_records ls) mod nat B])"
      by (rule ml)
    show "length (calls st'') = (length (text_records ls) + nat B - 1) div nat B"
      by (rule lc)
    show "list_all2 (\<lambda>b vs. embeddings_create (map text_of b) = Inr vs \<and> length vs = length b)
             (consecutive_batches (nat B) (text_records ls)) vss"
      using l2 by (simp add: bs_def)
    show "fout st'' = map (\<lambda>(rec, item). attach rec item) (zip (text_records ls) (concat vss))"
      by (rule out')
    show "length (fout st'') = length (text_records ls)"
      by (rule lo)
    show "list_all (\<lambda>v. \<exists>kv. v = JObj kv \<and> map_of kv (ustr ''embedding'') \<noteq> None) (fout st'')"
      by (rule emb)
    show "list_all2
             (\<lambda>v p. \<exists>kv. v = JObj kv \<and>
                 map_of kv (ustr ''embedding'') = Some (JArr (map JFloat (snd p))) \<and>
                 map_of kv (ustr ''embedding_dim'') = Some (JInt (int (length (snd p)))) \<and>
                 dict_get kv (ustr ''content'') =
                   (if map_of (fst p) (ustr ''content'') = None then dict_get (fst p) (ustr ''text'')
                    else dict_get (fst p) (ustr ''content'')) \<and>
                 (\<forall>k. k \<noteq> ustr ''embedding'' \<and> k \<noteq> ustr ''embedding_dim'' \<and>
                      k \<noteq> ustr ''content'' \<and> k \<noteq> ustr ''text'' \<longrightarrow>
                      map_of kv k = map_of (fst p) k))
             (fout st'') (zip (text_records ls) (concat vss))"
      by (rule fields)
  qed
qed

lemma text_records_replicate:
  "truthy (text_of rec) \<Longrightarrow> text_records (replicate n (Value (JObj rec))) = replicate n rec"
  by (induction n) simp_all

theorem build_embeddings_batches_witness:
  "list_all embeddable (replicate 35 (Value (JObj [(ustr ''text'', JStr (ustr ''t''))]))) \<and>
   (\<exists>out calls.
      build_embeddings (\<lambda>ts. Inr (map (\<lambda>t. [0]) ts)) (Some 16) 16
        (replicate 35 (Value (JObj [(ustr ''text'', JStr (ustr ''t''))]))) = Inr (out, calls) \<and>
      map length calls = [16, 16, 3] \<and> length out = 35) \<and>
   build_embeddings
     (\<lambda>ts. Inr (map (\<lambda>t. case t of JStr s \<Rightarrow> [of_nat (length s), 1 / 2] | _ \<Rightarrow> []) ts))
     (Some 2) 16
     [Value (JObj [(ustr ''id'', JStr (ustr ''p'')), (ustr ''text'', JStr (ustr ''a''))]),
      Blank,
      Value (JObj [(ustr ''id'', JStr (ustr ''q'')), (ustr ''text'', JStr [])]),
      Value (JObj [(ustr ''id'', JStr (ustr ''r'')), (ustr ''content'', JStr (ustr ''bb''))]),
      Value (JObj [(ustr ''id'', JStr (ustr ''s'')), (ustr ''text'', JStr (ustr ''ccc''))])] =
   Inr ([JObj [(ustr ''id'', JStr (ustr ''p'')), (ustr ''embedding'', JArr [JFloat 1, JFloat (1 / 2)]),
               (ustr ''embedding_dim'', JInt 2), (ustr ''content'', JStr (ustr ''a''))],
         JObj [(ustr ''id'', JStr (ustr ''r'')), (ustr ''content'', JStr (ustr ''bb'')),
               (ustr ''embedding'', JArr [JFloat 2, JFloat (1 / 2)]), (ustr ''embedding_dim'', JInt 2)],
         JObj [(ustr ''id'', JStr (ustr ''s'')), (ustr ''embedding'', JArr [JFloat 3, JFloat (1 / 2)]),
               (ustr ''embedding_dim'', JInt 2), (ustr ''content'', JStr (ustr ''ccc''))]],
        [[JStr (ustr ''a''), JStr (ustr ''bb'')], [JStr (ustr ''ccc'')]])"
proof -
  have ok: "list_all embeddable (replicate 35 (Value (JObj [(ustr ''text'', JStr (ustr ''t''))])))"
    by (simp add: list_all_iff)
  have tr: "text_records (replicate 35 (Value (JObj [(ustr ''text'', JStr (ustr ''t''))]))) =
            replicate 35 [(ustr ''text'', JStr (ustr ''t''))]"
    by (rule text_records_replicate) (simp add: text_of_def py_or_def dict_get_def ustr_def)
  have B: "(16::int) = (case Some 16 of None \<Rightarrow> 16 | Some b \<Rightarrow> if b \<noteq> 0 then b else 16)" "(0::int) < 16"
    by simp_all
  have c: "\<forall>ts::json list. ts \<noteq> [] \<longrightarrow>
            (\<exists>vs::rat list list. (\<lambda>ts. Inr (map (\<lambda>t. [0]) ts)) ts = (Inr vs :: error + rat list list) \<and>
                  length vs = length ts)"
    by simp
  have r: "replicate (35 div 16) (16::nat) @ (if (35::nat) mod 16 = 0 then [] else [35 mod 16]) = [16, 16, 3]"
    by (simp add: numeral_2_eq_2)
  from build_embeddings_batches[OF B ok c] tr r
  have big: "\<exists>out calls.
      build_embeddings (\<lambda>ts. Inr (map (\<lambda>t. [0]) ts)) (Some 16) 16
        (replicate 35 (Value (JObj [(ustr ''text'', JStr (ustr ''t''))]))) = Inr (out, calls) \<and>
      map length calls = [16, 16, 3] \<and> length out = 35"
    by auto
  have small: "build_embeddings
     (\<lambda>ts. Inr (map (\<lambda>t. case t of JStr s \<Rightarrow> [of_nat (length s), 1 / 2] | _ \<Rightarrow> []) ts))
     (Some 2) 16
     [Value (JObj [(ustr ''id'', JStr (ustr ''p'')), (ustr ''text'', JStr (ustr ''a''))]),
      Blank,
      Value (JObj [(ustr ''id'', JStr (ustr ''q'')), (ustr ''text'', JStr [])]),
      Value (JObj [(ustr ''id'', JStr (ustr ''r'')), (ustr ''content'', JStr (ustr ''bb''))]),
      Value (JObj [(ustr ''id'', JStr (ustr ''s'')), (ustr ''text'', JStr (ustr ''ccc''))])] =
   Inr ([JObj [(ustr ''id'', JStr (ustr ''p'')), (ustr ''embedding'', JArr [JFloat 1, JFloat (1 / 2)]),
               (ustr ''embedding_dim'', JInt 2), (ustr ''content'', JStr (ustr ''a''))],
         JObj [(ustr ''id'', JStr (ustr ''r'')), (ustr ''content'', JStr (ustr ''bb'')),
               (ustr ''embedding'', JArr [JFloat 2, JFloat (1 / 2)]), (ustr ''embedding_dim'', JInt 2)],
         JObj [(ustr ''id'', JStr (ustr ''s'')), (ustr ''embedding'', JArr [JFloat 3, JFloat (1 / 2)]),
               (ustr ''embedding_dim'', JInt 2), (ustr ''content'', JStr (ustr ''ccc''))]],
        [[JStr (ustr ''a''), JStr (ustr ''bb'')], [JStr (ustr ''ccc'')]])"
    by (simp add: build_embeddings_def flush_batch_def attach_def py_or_def dict_get_def ustr_def
        Let_def)
  from ok big small show ?thesis by simp
qed

section \<open>Uniqueness of ids\<close>

lemma data_chunk_text_hello:
  "data_chunk_text (ustr ''hello'') 1000 100 = Some [ustr ''hello'']"
  by (simp add: data_chunk_text_def data_chunk_loop.simps ustr_def strip_def is_space_def
      py_slice_def slice_index_def Let_def)

lemma make_record_report_pdf:
  assumes "lower (ustr ''.pdf'') = ustr ''.pdf''"
  shows "make_record lower sha1 (\<lambda>p. ustr ''hello'') (\<lambda>p. ustr ''hello'') (\<lambda>p. ustr ''hello'')
           \<lparr>path_str = ustr ''data/report.pdf'', resolved = ustr ''/data/report.pdf'',
            stem = ustr ''report'', suffix = ustr ''.pdf'', size_bytes = 5\<rparr> =
         Some (Some [file_record sha1
           \<lparr>path_str = ustr ''data/report.pdf'', resolved = ustr ''/data/report.pdf'',
            stem = ustr ''report'', suffix = ustr ''.pdf'', size_bytes = 5\<rparr>
           (ustr ''.pdf'') 1 1 (ustr ''hello'')])"
proof -
  have h: "\<not> is_hidden_or_appledouble
           \<lparr>path_str = ustr ''data/report.pdf'', resolved = ustr ''/data/report.pdf'',
            stem = ustr ''report'', suffix = ustr ''.pdf'', size_bytes = 5\<rparr>"
    by (simp add: is_hidden_or_appledouble_def path_name_def starts_with_def ustr_def)
  have ne: "ustr ''.pdf'' \<noteq> ustr ''.docx''" "ustr ''hello'' \<noteq> []" by (simp_all add: ustr_def)
  show ?thesis
    unfolding make_record_def
    by (simp add: h assms ne data_chunk_text_hello Let_def enumerate_eq_zip)
qed

lemma make_record_report_docx:
  assumes "lower (ustr ''.docx'') = ustr ''.docx''"
  shows "make_record lower sha1 (\<lambda>p. ustr ''hello'') (\<lambda>p. ustr ''hello'') (\<lambda>p. ustr ''hello'')
           \<lparr>path_str = ustr ''data/report.docx'', resolved = ustr ''/data/report.docx'',
            stem = ustr ''report'', suffix = ustr ''.docx'', size_bytes = 7\<rparr> =
         Some (Some [file_record sha1
           \<lparr>path_str = ustr ''data/report.docx'', resolved = ustr ''/data/report.docx'',
            stem = ustr ''report'', suffix = ustr ''.docx'', size_bytes = 7\<rparr>
           (ustr ''.docx'') 1 1 (ustr ''hello'')])"
proof -
  have h: "\<not> is_hidden_or_appledouble
           \<lparr>path_str = ustr ''data/report.docx'', resolved = ustr ''/data/report.docx'',
            stem = ustr ''report'', suffix = ustr ''.docx'', size_bytes = 7\<rparr>"
    by (simp add: is_hidden_or_appledouble_def path_name_def starts_with_def ustr_def)
  have ne: "ustr ''hello'' \<noteq> []" by (simp add: ustr_def)
  show ?thesis
    unfolding make_record_def
    by (simp add: h assms ne data_chunk_text_hello Let_def enumerate_eq_zip)
qed

lemma file_record_id:
  "record_id (file_record sha1 p ext n i chunk) = JStr (stem p @ ustr ''_'' @ digits i)"
  by (simp add: file_record_def dict_get_def)

lemma file_record_key:
  "sha1 (resolved p @ ustr ''::'' @ chunk) \<noteq> [] \<Longrightarrow>
   record_key (file_record sha1 p ext n i chunk) = Some (JStr (sha1 (resolved p @ ustr ''::'' @ chunk)))"
  by (simp add: file_record_def dedup_key_def py_or_def dict_get_def ustr_def)



text \<open>
  Claim C3: no two surviving records of a corpus build carry the same id. The code
  breaks it: the id of a file record is the stem of the file name and the chunk number,
  so \<open>report.pdf\<close> and \<open>report.docx\<close> in one directory, each with the text \<open>hello\<close>,
  both give the id \<open>report_1\<close>. Their fingerprints differ, since the path is hashed
  too, so \<open>combine_jsonl\<close> keeps both, and after embedding both are loaded for
  upload under the key \<open>report_1\<close>.
\<close>

theorem same_stem_same_id:
  assumes "lower (ustr ''.pdf'') = ustr ''.pdf''" and "lower (ustr ''.docx'') = ustr ''.docx''"
    and "sha1 (ustr ''/data/report.pdf::hello'') \<noteq> []"
    and "sha1 (ustr ''/data/report.docx::hello'') \<noteq> []"
    and "sha1 (ustr ''/data/report.pdf::hello'') \<noteq> sha1 (ustr ''/data/report.docx::hello'')"
  shows "\<exists>r1 r2 out calls d1 d2.
           r1 = file_record sha1 \<lparr>path_str = ustr ''data/report.pdf'', resolved = ustr ''/data/report.pdf'',
              stem = ustr ''report'', suffix = ustr ''.pdf'', size_bytes = 5\<rparr> (ustr ''.pdf'') 1 1 (ustr ''hello'') \<and>
           r2 = file_record sha1 \<lparr>path_str = ustr ''data/report.docx'', resolved = ustr ''/data/report.docx'',
              stem = ustr ''report'', suffix = ustr ''.docx'', size_bytes = 7\<rparr> (ustr ''.docx'') 1 1 (ustr ''hello'') \<and>
           build_corpus lower sha1 (\<lambda>p. ustr ''hello'') (\<lambda>p. ustr ''hello'') (\<lambda>p. ustr ''hello'')
             [\<lparr>path_str = ustr ''data/report.pdf'', resolved = ustr ''/data/report.pdf'',
              stem = ustr ''report'', suffix = ustr ''.pdf'', size_bytes = 5\<rparr>,
              \<lparr>path_str = ustr ''data/report.docx'', resolved = ustr ''/data/report.docx'',
              stem = ustr ''report'', suffix = ustr ''.docx'', size_bytes = 7\<rparr>] = Some [Value r1, Value r2] \<and>
           combine_jsonl
             (Map.empty(ustr ''out/ndis_parsed.jsonl'' \<mapsto> [Value r1, Value r2],
                        ustr ''out/web_parsed.jsonl'' \<mapsto> []))
             [ustr ''out/ndis_parsed.jsonl'', ustr ''out/web_parsed.jsonl''] = Inr [r1, r2] \<and>
           r1 \<noteq> r2 \<and>
           record_id r1 = JStr (ustr ''report_1'') \<and> record_id r2 = JStr (ustr ''report_1'') \<and>
           build_embeddings (\<lambda>ts. Inr (map (\<lambda>t. [1]) ts)) None 16 [Value r1, Value r2] =
             Inr (out, calls) \<and>
           load_embedded repr (map Value out) = Inr [d1, d2] \<and>
           doc_id d1 = ustr ''report_1'' \<and> doc_id d2 = ustr ''report_1''"
proof -
  define r1 where "r1 = file_record sha1 \<lparr>path_str = ustr ''data/report.pdf'', resolved = ustr ''/data/report.pdf'',
              stem = ustr ''report'', suffix = ustr ''.pdf'', size_bytes = 5\<rparr> (ustr ''.pdf'') 1 1 (ustr ''hello'')"
  define r2 where "r2 = file_record sha1 \<lparr>path_str = ustr ''data/report.docx'', resolved = ustr ''/data/report.docx'',
              stem = ustr ''report'', suffix = ustr ''.docx'', size_bytes = 7\<rparr> (ustr ''.docx'') 1 1 (ustr ''hello'')"
  have hid: "\<not> is_hidden_or_appledouble \<lparr>path_str = ustr ''data/report.pdf'', resolved = ustr ''/data/report.pdf'',
              stem = ustr ''report'', suffix = ustr ''.pdf'', size_bytes = 5\<rparr>"
    "\<not> is_hidden_or_appledouble \<lparr>path_str = ustr ''data/report.docx'', resolved = ustr ''/data/report.docx'',
              stem = ustr ''report'', suffix = ustr ''.docx'', size_bytes = 7\<rparr>"
    by (simp_all add: is_hidden_or_appledouble_def path_name_def starts_with_def ustr_def)
  have corpus: "build_corpus lower sha1 (\<lambda>p. ustr ''hello'') (\<lambda>p. ustr ''hello'') (\<lambda>p. ustr ''hello'')
             [\<lparr>path_str = ustr ''data/report.pdf'', resolved = ustr ''/data/report.pdf'',
              stem = ustr ''report'', suffix = ustr ''.pdf'', size_bytes = 5\<rparr>,
              \<lparr>path_str = ustr ''data/report.docx'', resolved = ustr ''/data/report.docx'',
              stem = ustr ''report'', suffix = ustr ''.docx'', size_bytes = 7\<rparr>] = Some [Value r1, Value r2]"
    unfolding build_corpus_def r1_def r2_def
    by (simp add: hid assms(1,2) make_record_report_pdf[where lower = lower, OF assms(1)] make_record_report_docx[where lower = lower, OF assms(2)])
  have cat: "ustr ''/data/report.pdf'' @ ustr ''::'' @ ustr ''hello'' = ustr ''/data/report.pdf::hello''"
    "ustr ''/data/report.docx'' @ ustr ''::'' @ ustr ''hello'' = ustr ''/data/report.docx::hello''"
    by (simp_all add: ustr_def)
  have k1: "record_key r1 = Some (JStr (sha1 (ustr ''/data/report.pdf::hello'')))"
    unfolding r1_def using assms(3) by (subst file_record_key) (simp_all add: cat)
  have k2: "record_key r2 = Some (JStr (sha1 (ustr ''/data/report.docx::hello'')))"
    unfolding r2_def using assms(4) by (subst file_record_key) (simp_all add: cat)
  obtain kv1 where o1: "r1 = JObj kv1" by (simp add: r1_def file_record_def)
  obtain kv2 where o2: "r2 = JObj kv2" by (simp add: r2_def file_record_def)
  have ne: "r1 \<noteq> r2" using k1 k2 assms(5) by auto
  have names: "ustr ''out/ndis_parsed.jsonl'' \<noteq> []" "ustr ''out/web_parsed.jsonl'' \<noteq> []"
    "ustr ''out/web_parsed.jsonl'' \<noteq> ustr ''out/ndis_parsed.jsonl''"
    by (simp_all add: ustr_def)
  have merged: "combine_jsonl
             (Map.empty(ustr ''out/ndis_parsed.jsonl'' \<mapsto> [Value r1, Value r2],
                        ustr ''out/web_parsed.jsonl'' \<mapsto> []))
             [ustr ''out/ndis_parsed.jsonl'', ustr ''out/web_parsed.jsonl''] = Inr [r1, r2]"
    using k1 k2 assms(5) names by (simp add: combine_jsonl_def o1 o2)
  have ids: "record_id r1 = JStr (ustr ''report_1'')" "record_id r2 = JStr (ustr ''report_1'')"
    by (simp_all add: r1_def r2_def file_record_id digits.simps ustr_def)
  have emb: "build_embeddings (\<lambda>ts. Inr (map (\<lambda>t. [1]) ts)) None 16 [Value r1, Value r2] =
             Inr ([attach (case r1 of JObj kv \<Rightarrow> kv) [1], attach (case r2 of JObj kv \<Rightarrow> kv) [1]],
                  [[JStr (ustr ''hello''), JStr (ustr ''hello'')]])"
    by (simp add: build_embeddings_def flush_batch_def r1_def r2_def file_record_def py_or_def
        dict_get_def ustr_def Let_def)
  have l1: "\<exists>d. load_line repr (Value (attach (case r1 of JObj kv \<Rightarrow> kv) [1])) = Inr (Some d) \<and>
                doc_id d = ustr ''report_1''"
    by (simp add: r1_def file_record_def attach_def py_or_def py_str_def dict_get_def
        dict_get_default_def sanitize_id_def allowed_char_def digits.simps ustr_def Let_def)
  have l2: "\<exists>d. load_line repr (Value (attach (case r2 of JObj kv \<Rightarrow> kv) [1])) = Inr (Some d) \<and>
                doc_id d = ustr ''report_1''"
    by (simp add: r2_def file_record_def attach_def py_or_def py_str_def dict_get_def
        dict_get_default_def sanitize_id_def allowed_char_def digits.simps ustr_def Let_def)
  from l1 l2 obtain d1 d2 where
    d: "load_line repr (Value (attach (case r1 of JObj kv \<Rightarrow> kv) [1])) = Inr (Some d1)"
       "doc_id d1 = ustr ''report_1''"
       "load_line repr (Value (attach (case r2 of JObj kv \<Rightarrow> kv) [1])) = Inr (Some d2)"
       "doc_id d2 = ustr ''report_1''"
    by blast
  have load: "load_embedded repr (map Value [attach (case r1 of JObj kv \<Rightarrow> kv) [1],
                attach (case r2 of JObj kv \<Rightarrow> kv) [1]]) = Inr [d1, d2]"
    using d by (simp add: load_embedded_def)
  from corpus merged ne ids emb load d(2,4) show ?thesis
    unfolding r1_def[symmetric] r2_def[symmetric] by blast
qed

theorem same_stem_same_id_witness:
  "ustr ''/data/report.pdf::hello'' \<noteq> ustr ''/data/report.docx::hello'' \<and>
   (\<exists>r1 r2 out calls d1 d2.
           r1 = file_record (\<lambda>s. s) \<lparr>path_str = ustr ''data/report.pdf'', resolved = ustr ''/data/report.pdf'',
              stem = ustr ''report'', suffix = ustr ''.pdf'', size_bytes = 5\<rparr> (ustr ''.pdf'') 1 1 (ustr ''hello'') \<and>
           r2 = file_record (\<lambda>s. s) \<lparr>path_str = ustr ''data/report.docx'', resolved = ustr ''/data/report.docx'',
              stem = ustr ''report'', suffix = ustr ''.docx'', size_bytes = 7\<rparr> (ustr ''.docx'') 1 1 (ustr ''hello'') \<and>
           build_corpus (\<lambda>s. s) (\<lambda>s. s) (\<lambda>p. ustr ''hello'') (\<lambda>p. ustr ''hello'') (\<lambda>p. ustr ''hello'')
             [\<lparr>path_str = ustr ''data/report.pdf'', resolved = ustr ''/data/report.pdf'',
              stem = ustr ''report'', suffix = ustr ''.pdf'', size_bytes = 5\<rparr>,
              \<lparr>path_str = ustr ''data/report.docx'', resolved = ustr ''/data/report.docx'',
              stem = ustr ''report'', suffix = ustr ''.docx'', size_bytes = 7\<rparr>] = Some [Value r1, Value r2] \<and>
           combine_jsonl
             (Map.empty(ustr ''out/ndis_parsed.jsonl'' \<mapsto> [Value r1, Value r2],
                        ustr ''out/web_parsed.jsonl'' \<mapsto> []))
             [ustr ''out/ndis_parsed.jsonl'', ustr ''out/web_parsed.jsonl''] = Inr [r1, r2] \<and>
           r1 \<noteq> r2 \<and>
           record_id r1 = JStr (ustr ''report_1'') \<and> record_id r2 = JStr (ustr ''report_1'') \<and>
           build_embeddings (\<lambda>ts. Inr (map (\<lambda>t. [1]) ts)) None 16 [Value r1, Value r2] =
             Inr (out, calls) \<and>
           load_embedded (\<lambda>v. []) (map Value out) = Inr [d1, d2] \<and>
           doc_id d1 = ustr ''report_1'' \<and> doc_id d2 = ustr ''report_1'')"
proof -
  have ne: "ustr ''/data/report.pdf::hello'' \<noteq> ustr ''/data/report.docx::hello''"
    "ustr ''/data/report.pdf::hello'' \<noteq> []" "ustr ''/data/report.docx::hello'' \<noteq> []"
    by (simp_all add: ustr_def)
  from same_stem_same_id[of "\<lambda>s. s" "\<lambda>s. s" "\<lambda>v. []"] ne show ?thesis
    by simp
qed


end
